theory Spec2Isabelle
  imports Main
begin

section \<open>Strings and JavaScript containers\<close>

text \<open>
  JavaScript strings are modelled as \<^typ>\<open>string\<close>. The line feed of the template literals
  is the single character \<open>0x0A\<close>; the check mark of the confirmation texts is written as its
  three UTF-8 bytes.
\<close>

abbreviation nl :: string where
  "nl \<equiv> [CHR 0x0A]"

abbreviation check_mark :: string where
  "check_mark \<equiv> [CHR 0xE2, CHR 0x9C, CHR 0x93]"

text \<open>
  A number inside a template literal is printed in decimal. The numbers printed by the server are
  integers (differences of \<open>Date.now()\<close> readings divided by 1000 and floored, and the
  history labels), so the decimal rendering of an \<^typ>\<open>int\<close> suffices.
\<close>

fun string_of_nat :: "nat \<Rightarrow> string" where
  "string_of_nat n =
     (if n < 10 then [char_of (48 + n)]
      else string_of_nat (n div 10) @ [char_of (48 + n mod 10)])"

declare string_of_nat.simps [simp del]

definition string_of_int :: "int \<Rightarrow> string" where
  "string_of_int i = (if i < 0 then ''-'' @ string_of_nat (nat (- i)) else string_of_nat (nat i))"

text \<open>\<open>Array.prototype.join\<close> with a separator.\<close>

fun join :: "string \<Rightarrow> string list \<Rightarrow> string" where
  "join sep [] = []"
| "join sep [x] = x"
| "join sep (x # y # ys) = x @ sep @ join sep (y # ys)"

text \<open>
  A JavaScript \<open>Map\<close> iterates in insertion order, and \<open>set\<close> on a key that is already
  present replaces the value in place without moving the key. It is an association list here:
  \<open>map_set\<close> is \<open>Map.prototype.set\<close>, \<^const>\<open>map_of\<close> is \<open>Map.prototype.get\<close>, and
  \<open>map_values\<close> is \<open>Array.from(m.values())\<close>.
\<close>

fun map_set :: "('k \<times> 'v) list \<Rightarrow> 'k \<Rightarrow> 'v \<Rightarrow> ('k \<times> 'v) list" where
  "map_set [] k v = [(k, v)]"
| "map_set ((k', v') # m) k v =
     (if k' = k then (k, v) # m else (k', v') # map_set m k v)"

definition map_values :: "('k \<times> 'v) list \<Rightarrow> 'v list" where
  "map_values m = map snd m"

text \<open>
  \<open>Array.prototype.slice(start)\<close> with an integer \<open>start\<close> and no \<open>end\<close>: a negative
  \<open>start\<close> counts from the end of the array and is clamped at the first element, a
  non-negative one is clamped at the length. Note that \<open>-0\<close> is \<open>0\<close>: \<open>slice(-0)\<close> is
  the whole array.
\<close>

definition slice_from :: "'a list \<Rightarrow> int \<Rightarrow> 'a list" where
  "slice_from xs start =
     (let len = int (length xs);
          k = (if start < 0 then max (len + start) 0 else min start len)
      in drop (nat k) xs)"

section \<open>The data model of the server\<close>

record ChannelState =
  channel :: string
  pattern :: string
  timestamp :: int
  active :: bool

record TidalConfig =
  tidalFile :: string
  bootTidalPath :: "string option"
  useGhci :: bool
  logFile :: "string option"

text \<open>The element type of \<open>patternHistory\<close>, an anonymous object type in the source.\<close>

record HistoryEntry =
  h_channel :: string
  h_pattern :: string
  h_timestamp :: int

text \<open>
  What the server reads of a \<open>ChildProcess\<close>: whether it has a \<open>stdin\<close> stream, whether
  that stream is destroyed, whether the process is marked killed. \<open>stdin_written\<close> records
  the chunks handed to \<open>stdin.write\<close>, oldest first.
\<close>

record ChildProcess =
  has_stdin :: bool
  stdin_destroyed :: bool
  killed :: bool
  stdin_written :: "string list"

text \<open>
  The fields of \<open>TidalMCPServer\<close>, together with the part of the outside world its methods
  act on: the file system (\<open>files\<close>, from path to content) and the number of subprocesses
  spawned so far (\<open>spawn_count\<close>).
\<close>

record TidalMCPServer =
  channels :: "(string \<times> ChannelState) list"
  config :: TidalConfig
  ghciProcess :: "ChildProcess option"
  patternHistory :: "HistoryEntry list"
  server_logFile :: string
  ghciStreamAlive :: bool
  isReconnecting :: bool
  files :: "string \<rightharpoonup> string"
  spawn_count :: nat

section \<open>The environment of one call\<close>

text \<open>
  Everything a method reads from outside the server object during one call: the clock, and the
  outcomes of the file-system, spawn and stream operations of Node. Each reading of the clock
  in the source is a field of its own, since two readings in one call need not agree.
\<close>

datatype ghci_event = ProcessExit | StdinError | StdinClose

record env =
  log_iso :: string  \<comment> \<open>\<open>new Date().toISOString()\<close> in the two logging methods\<close>
  log_fails :: bool  \<comment> \<open>\<open>fs.appendFile\<close> rejects\<close>
  now_state :: int  \<comment> \<open>\<open>Date.now()\<close> in \<open>channels.set\<close>\<close>
  now_history :: int  \<comment> \<open>\<open>Date.now()\<close> in \<open>patternHistory.push\<close>\<close>
  now_query :: "nat \<Rightarrow> int"  \<comment> \<open>\<open>Date.now()\<close> while rendering the entry at an index\<close>
  file_iso :: string  \<comment> \<open>\<open>new Date().toISOString()\<close> in \<open>writeToTidalFile\<close>\<close>
  file_write_error :: "string option"  \<comment> \<open>the message \<open>fs.writeFile\<close> rejects with\<close>
  spawn_throws :: "string option"  \<comment> \<open>what \<open>spawn\<close> throws, as a template literal prints it\<close>
  spawn_has_stdin :: bool  \<comment> \<open>the spawned process has a \<open>stdin\<close> stream\<close>
  init_events :: "ghci_event list"  \<comment> \<open>handlers that fire during the initialisation wait\<close>
  stdin_write_error :: "string option"  \<comment> \<open>the message of the error \<open>stdin.write\<close> calls back with\<close>

text \<open>
  An exception is the message of the thrown \<open>Error\<close>; a method that can throw returns
  \<open>Inl\<close> of the message, or \<open>Inr\<close> of its value, next to the state it leaves behind.
\<close>

type_synonym 'a outcome = "(string + 'a) \<times> TidalMCPServer"

section \<open>Construction\<close>

definition valid_channels :: "string list" where
  "valid_channels = map (\<lambda>i. ''d'' @ string_of_nat i) [1..<10]"

text \<open>
  The constructor. \<open>default_log\<close> stands for
  \<open>path.join(path.dirname(config.tidalFile), "tidal-mcp-session.log")\<close>, and \<open>fs\<close> for the file
  system the process starts in. \<open>config.logFile || ...\<close> falls through on an absent and on an
  empty path. The loop over \<open>i = 1..9\<close> is the fold over \<^const>\<open>valid_channels\<close>.
\<close>

definition init_channel :: "string \<Rightarrow> ChannelState" where
  "init_channel c = \<lparr>channel = c, pattern = '''', timestamp = 0, active = False\<rparr>"

definition new_server :: "TidalConfig \<Rightarrow> string \<Rightarrow> (string \<rightharpoonup> string) \<Rightarrow> TidalMCPServer" where
  "new_server cfg default_log fs =
     \<lparr>channels = foldl (\<lambda>m c. map_set m c (init_channel c)) [] valid_channels,
      config = cfg,
      ghciProcess = None,
      patternHistory = [],
      server_logFile =
        (case logFile cfg of None \<Rightarrow> default_log
         | Some l \<Rightarrow> if l = '''' then default_log else l),
      ghciStreamAlive = False,
      isReconnecting = False,
      files = fs,
      spawn_count = 0\<rparr>"

section \<open>The session log\<close>

text \<open>\<open>fs.appendFile\<close>: creates the file when it is absent. A failure is caught and only printed.\<close>

definition append_file :: "(string \<rightharpoonup> string) \<Rightarrow> string \<Rightarrow> string \<Rightarrow> (string \<rightharpoonup> string)" where
  "append_file fs path text =
     fs(path \<mapsto> (case fs path of None \<Rightarrow> text | Some old \<Rightarrow> old @ text))"

definition logPatternEvaluation ::
  "env \<Rightarrow> TidalMCPServer \<Rightarrow> string \<Rightarrow> string \<Rightarrow> string \<Rightarrow> TidalMCPServer" where
  "logPatternEvaluation e s request c p =
     (let fullPattern = c @ '' $ '' @ p;
          logEntry = log_iso e @ nl @ ''REQUEST: '' @ request @ nl
                     @ ''RESPONSE: '' @ fullPattern @ nl @ ''---'' @ nl @ nl
      in if log_fails e then s
         else s\<lparr>files := append_file (files s) (server_logFile s) logEntry\<rparr>)"

definition logAction :: "env \<Rightarrow> TidalMCPServer \<Rightarrow> string \<Rightarrow> string option \<Rightarrow> TidalMCPServer" where
  "logAction e s action details =
     (let logEntry = log_iso e @ nl @ ''ACTION: '' @ action
                     @ (case details of None \<Rightarrow> ''''
                        | Some d \<Rightarrow> if d = '''' then '''' else nl @ ''DETAILS: '' @ d)
                     @ nl @ ''---'' @ nl @ nl
      in if log_fails e then s
         else s\<lparr>files := append_file (files s) (server_logFile s) logEntry\<rparr>)"

section \<open>The file sink\<close>

text \<open>
  \<open>fs.writeFile\<close> replaces the content of the file. When it rejects, the rejection propagates
  and the model leaves the file system as it was.
\<close>

definition file_content :: "env \<Rightarrow> string \<Rightarrow> string" where
  "file_content e code =
     ''-- TidalCycles MCP Server'' @ nl @ ''-- Auto-generated at '' @ file_iso e @ nl @ nl
     @ code @ nl"

definition writeToTidalFile :: "env \<Rightarrow> TidalMCPServer \<Rightarrow> string \<Rightarrow> unit outcome" where
  "writeToTidalFile e s code =
     (case file_write_error e of
        Some msg \<Rightarrow> (Inl msg, s)
      | None \<Rightarrow> (Inr (), s\<lparr>files := (files s)(tidalFile (config s) \<mapsto> file_content e code)\<rparr>))"

section \<open>The interpreter subprocess\<close>

definition isGhciHealthy :: "TidalMCPServer \<Rightarrow> bool" where
  "isGhciHealthy s =
     (ghciStreamAlive s \<and>
      (case ghciProcess s of
         None \<Rightarrow> False
       | Some p \<Rightarrow> has_stdin p \<and> \<not> stdin_destroyed p \<and> \<not> killed p))"

text \<open>
  The handlers that \<open>startGhci\<close> registers for the exit of the process and for the error and the
  close of its \<open>stdin\<close>. They act on the fields of the server, whichever process fired them.
  (The handler of the process's \<open>error\<close> event rethrows from inside the event loop, which ends
  the host process; it is no transition of a running server.)
\<close>

fun ghci_handler :: "ghci_event \<Rightarrow> TidalMCPServer \<Rightarrow> TidalMCPServer" where
  "ghci_handler ProcessExit s = s\<lparr>ghciStreamAlive := False, ghciProcess := None\<rparr>"
| "ghci_handler StdinError s = s\<lparr>ghciStreamAlive := False\<rparr>"
| "ghci_handler StdinClose s = s\<lparr>ghciStreamAlive := False\<rparr>"

definition fire :: "ghci_event list \<Rightarrow> TidalMCPServer \<Rightarrow> TidalMCPServer" where
  "fire evs s = foldl (\<lambda>st ev. ghci_handler ev st) s evs"

text \<open>
  \<open>startGhci\<close> up to its only suspension point, the wait for the readiness marker or the
  10 second timeout. \<open>Inr False\<close>: it returned at once (already running and alive).
  \<open>Inr True\<close>: the old process, if any, was killed and dropped, a new one was spawned and marked
  alive, and the method now waits. \<open>Inl\<close>: \<open>spawn\<close> threw.
\<close>

definition startGhci_begin :: "env \<Rightarrow> TidalMCPServer \<Rightarrow> bool outcome" where
  "startGhci_begin e s =
     (if ghciProcess s \<noteq> None \<and> ghciStreamAlive s then (Inr False, s)
      else
        let s1 = (if ghciProcess s \<noteq> None then s\<lparr>ghciProcess := None\<rparr> else s)
        in case spawn_throws e of
             Some t \<Rightarrow> (Inl t, s1)
           | None \<Rightarrow>
               (Inr True,
                s1\<lparr>ghciProcess :=
                      Some \<lparr>has_stdin = spawn_has_stdin e, stdin_destroyed = False,
                            killed = False, stdin_written = []\<rparr>,
                    spawn_count := Suc (spawn_count s1),
                    ghciStreamAlive := True\<rparr>))"

text \<open>The whole of \<open>startGhci\<close>: the wait ends by the marker or by the timeout, never by an error.\<close>

definition startGhci :: "env \<Rightarrow> TidalMCPServer \<Rightarrow> unit outcome" where
  "startGhci e s =
     (case startGhci_begin e s of
        (Inl t, s1) \<Rightarrow> (Inl t, s1)
      | (Inr waits, s1) \<Rightarrow> (Inr (), if waits then fire (init_events e) s1 else s1))"

text \<open>
  \<open>sendToGhci\<close> in the three pieces that its suspension points cut it into:
  \<^item> \<open>sendToGhci_enter\<close>, from the health check to the \<open>await\<close> of \<open>startGhci\<close>;
  \<^item> \<open>sendToGhci_resume\<close>, the release of the guard after that \<open>await\<close>;
  \<^item> \<open>sendToGhci_write\<close>, the promise around \<open>stdin.write\<close>.
\<close>

datatype entered = Threw string | Awaiting bool | Proceed

definition sendToGhci_enter :: "env \<Rightarrow> TidalMCPServer \<Rightarrow> entered \<times> TidalMCPServer" where
  "sendToGhci_enter e s =
     (if \<not> isGhciHealthy s then
        if isReconnecting s
        then (Threw ''GHCi is currently reconnecting, please try again in a moment'', s)
        else
          case startGhci_begin e (s\<lparr>isReconnecting := True\<rparr>) of
            (Inl t, s1) \<Rightarrow>
              (Threw (''Failed to reconnect to GHCi: '' @ t), s1\<lparr>isReconnecting := False\<rparr>)
          | (Inr waits, s1) \<Rightarrow> (Awaiting waits, s1)
      else (Proceed, s))"

definition sendToGhci_resume :: "TidalMCPServer \<Rightarrow> TidalMCPServer" where
  "sendToGhci_resume s = s\<lparr>isReconnecting := False\<rparr>"

definition sendToGhci_write :: "env \<Rightarrow> TidalMCPServer \<Rightarrow> string \<Rightarrow> unit outcome" where
  "sendToGhci_write e s code =
     (case ghciProcess s of
        None \<Rightarrow> (Inl ''GHCi stdin not available after reconnection'', s)
      | Some p \<Rightarrow>
          if \<not> has_stdin p then (Inl ''GHCi stdin not available after reconnection'', s)
          else
            let s1 = s\<lparr>ghciProcess := Some (p\<lparr>stdin_written := stdin_written p @ [code @ nl]\<rparr>)\<rparr>
            in case stdin_write_error e of
                 Some msg \<Rightarrow> (Inl msg, s1\<lparr>ghciStreamAlive := False\<rparr>)
               | None \<Rightarrow> (Inr (), s1))"

text \<open>One call of \<open>sendToGhci\<close> run from entry to completion, no other call in between.\<close>

definition sendToGhci :: "env \<Rightarrow> TidalMCPServer \<Rightarrow> string \<Rightarrow> unit outcome" where
  "sendToGhci e s code =
     (case sendToGhci_enter e s of
        (Threw msg, s1) \<Rightarrow> (Inl msg, s1)
      | (Awaiting waits, s1) \<Rightarrow>
          sendToGhci_write e
            (sendToGhci_resume (if waits then fire (init_events e) s1 else s1)) code
      | (Proceed, s1) \<Rightarrow> sendToGhci_write e s1 code)"

section \<open>The operations\<close>

text \<open>
  Every operation that emits a command ends in the same conditional,
  \<open>if (this.config.useGhci) await this.sendToGhci(c) else await this.writeToTidalFile(c)\<close>.
\<close>

definition submit :: "env \<Rightarrow> TidalMCPServer \<Rightarrow> string \<Rightarrow> unit outcome" where
  "submit e s code =
     (if useGhci (config s) then sendToGhci e s code else writeToTidalFile e s code)"

definition evalPattern :: "env \<Rightarrow> TidalMCPServer \<Rightarrow> string \<Rightarrow> string \<Rightarrow> string outcome" where
  "evalPattern e s c p =
     (let fullPattern = c @ '' $ '' @ p;
          s1 = logPatternEvaluation e s (''Evaluate pattern on '' @ c) c p;
          s2 = s1\<lparr>channels :=
                    map_set (channels s1) c
                      \<lparr>channel = c, pattern = p, timestamp = now_state e, active = True\<rparr>\<rparr>;
          s3 = s2\<lparr>patternHistory :=
                    patternHistory s2
                    @ [\<lparr>h_channel = c, h_pattern = p, h_timestamp = now_history e\<rparr>]\<rparr>
      in case submit e s3 fullPattern of
           (Inl msg, s4) \<Rightarrow> (Inl msg, s4)
         | (Inr u, s4) \<Rightarrow>
             (Inr (check_mark @ '' Evaluated on '' @ c @ '':'' @ nl @ fullPattern @ nl @ nl
                   @ ''Pattern is now playing.''), s4))"

definition clear :: "ChannelState \<Rightarrow> ChannelState" where
  "clear st = st\<lparr>active := False, pattern := ''''\<rparr>"

definition hush :: "env \<Rightarrow> TidalMCPServer \<Rightarrow> string outcome" where
  "hush e s =
     (let s1 = logAction e s ''HUSH'' (Some ''Stopped all patterns'');
          s2 = s1\<lparr>channels := map (\<lambda>(k, st). (k, clear st)) (channels s1)\<rparr>
      in case submit e s2 ''hush'' of
           (Inl msg, s3) \<Rightarrow> (Inl msg, s3)
         | (Inr u, s3) \<Rightarrow> (Inr (check_mark @ '' All patterns stopped (hushed).''), s3))"

text \<open>\<open>channels.get(channel)\<close> followed by the in-place update of the record it returns, if any.\<close>

fun map_modify :: "('k \<times> 'v) list \<Rightarrow> 'k \<Rightarrow> ('v \<Rightarrow> 'v) \<Rightarrow> ('k \<times> 'v) list" where
  "map_modify [] k f = []"
| "map_modify ((k', v) # m) k f =
     (if k' = k then (k', f v) # m else (k', v) # map_modify m k f)"

definition silence :: "env \<Rightarrow> TidalMCPServer \<Rightarrow> string \<Rightarrow> string outcome" where
  "silence e s c =
     (let s1 = logAction e s ''SILENCE'' (Some (''Silenced channel '' @ c));
          s2 = s1\<lparr>channels := map_modify (channels s1) c clear\<rparr>;
          silenceCommand = ''silence '' @ c
      in case submit e s2 silenceCommand of
           (Inl msg, s3) \<Rightarrow> (Inl msg, s3)
         | (Inr u, s3) \<Rightarrow> (Inr (check_mark @ '' Silenced '' @ c @ ''.''), s3))"

text \<open>The array that \<open>getState\<close> builds first: the values of the map, filtered by \<open>active\<close>.\<close>

definition getActive :: "TidalMCPServer \<Rightarrow> ChannelState list" where
  "getActive s = filter active (map_values (channels s))"

definition elapsed :: "int \<Rightarrow> int \<Rightarrow> int" where
  "elapsed now t = (now - t) div 1000"

definition getState :: "env \<Rightarrow> TidalMCPServer \<Rightarrow> string outcome" where
  "getState e s =
     (let activeChannels =
            map (\<lambda>(idx, c). ''  '' @ channel c @ '': '' @ pattern c @ '' (''
                             @ string_of_int (elapsed (now_query e idx) (timestamp c))
                             @ ''s ago)'')
                (enumerate 0 (getActive s));
          stateText =
            (if length activeChannels > 0
             then ''Active channels:'' @ nl @ join nl activeChannels
             else ''No active patterns.'')
      in (Inr stateText, s))"

definition solo :: "env \<Rightarrow> TidalMCPServer \<Rightarrow> string \<Rightarrow> string outcome" where
  "solo e s c =
     (let s1 = logAction e s ''SOLO'' (Some (''Soloed channel '' @ c));
          soloPattern = ''solo $ '' @ c
      in case submit e s1 soloPattern of
           (Inl msg, s2) \<Rightarrow> (Inl msg, s2)
         | (Inr u, s2) \<Rightarrow>
             (Inr (check_mark @ '' Soloed '' @ c @ ''. All other channels are muted.''), s2))"

definition unsolo :: "env \<Rightarrow> TidalMCPServer \<Rightarrow> string outcome" where
  "unsolo e s =
     (let s1 = logAction e s ''UNSOLO'' (Some ''Restored all channels'');
          unsoloCommand = ''unsolo $ d1''
      in case submit e s1 unsoloCommand of
           (Inl msg, s2) \<Rightarrow> (Inl msg, s2)
         | (Inr u, s2) \<Rightarrow> (Inr (check_mark @ '' Unsolo applied. All channels restored.''), s2))"

text \<open>
  The local \<open>recent\<close> of \<open>getHistory\<close>, \<open>this.patternHistory.slice(-limit).reverse()\<close>, for an
  integer \<open>limit\<close>; then the method itself, whose parameter defaults to 10 when it is
  \<open>undefined\<close>.
\<close>

definition recent :: "HistoryEntry list \<Rightarrow> int \<Rightarrow> HistoryEntry list" where
  "recent hist limit = rev (slice_from hist (- limit))"

text \<open>The line that \<open>getHistory\<close> prints for the entry at index \<open>idx\<close> of \<open>recent\<close>.\<close>

definition history_line :: "env \<Rightarrow> int \<Rightarrow> nat \<times> HistoryEntry \<Rightarrow> string" where
  "history_line e limit =
     (\<lambda>(idx, entry).
        string_of_int (limit - int idx) @ ''. '' @ h_channel entry @ '': ''
        @ h_pattern entry @ '' (''
        @ string_of_int (elapsed (now_query e idx) (h_timestamp entry))
        @ ''s ago)'')"

definition getHistory :: "env \<Rightarrow> TidalMCPServer \<Rightarrow> int option \<Rightarrow> string outcome" where
  "getHistory e s limit_arg =
     (let limit = (case limit_arg of None \<Rightarrow> 10 | Some l \<Rightarrow> l);
          rs = recent (patternHistory s) limit
      in if length rs = 0 then (Inr ''No pattern history yet.'', s)
         else
           let historyText = join nl (map (history_line e limit) (enumerate 0 rs))
           in (Inr (''Recent patterns:'' @ nl @ historyText), s))"

section \<open>The request handler\<close>

text \<open>
  The arguments object of a tool call, with the fields at the types the handler casts them to.
  A tool reads only the fields it names. The response of the handler is the text of its single
  content item; an exception thrown below it becomes the text \<open>Error: \<close> and the message.
\<close>

record ToolArgs =
  arg_channel :: string
  arg_pattern :: string
  arg_limit :: "int option"

definition dispatch :: "env \<Rightarrow> TidalMCPServer \<Rightarrow> string \<Rightarrow> ToolArgs option \<Rightarrow> string outcome" where
  "dispatch e s name args =
     (case args of
        None \<Rightarrow> (Inl ''Missing arguments'', s)
      | Some a \<Rightarrow>
          if name = ''tidal_eval'' then evalPattern e s (arg_channel a) (arg_pattern a)
          else if name = ''tidal_hush'' then hush e s
          else if name = ''tidal_silence'' then silence e s (arg_channel a)
          else if name = ''tidal_get_state'' then getState e s
          else if name = ''tidal_solo'' then solo e s (arg_channel a)
          else if name = ''tidal_unsolo'' then unsolo e s
          else if name = ''tidal_get_history'' then getHistory e s (arg_limit a)
          else (Inl (''Unknown tool: '' @ name), s))"

definition callTool :: "env \<Rightarrow> TidalMCPServer \<Rightarrow> string \<Rightarrow> ToolArgs option \<Rightarrow> string \<times> TidalMCPServer" where
  "callTool e s name args =
     (case dispatch e s name args of
        (Inl errorMessage, s1) \<Rightarrow> (''Error: '' @ errorMessage, s1)
      | (Inr text, s1) \<Rightarrow> (text, s1))"

section \<open>Reachable states\<close>

text \<open>
  The states a server can be in: the one the constructor builds, and from any of them the state
  after one more tool call has been handled or one more subprocess handler has fired.
  \<open>reachable_via A\<close> admits only the tool calls whose name and arguments satisfy \<open>A\<close>;
  \<open>reachable\<close> admits them all. \<open>channel_in_set\<close> holds of the calls that evaluate on one of
  \<open>d1\<close> to \<open>d9\<close> or do not evaluate, \<open>content_nonempty\<close> of those that evaluate non-empty
  content or do not evaluate.
\<close>

inductive reachable_via :: "(string \<Rightarrow> ToolArgs \<Rightarrow> bool) \<Rightarrow> TidalMCPServer \<Rightarrow> bool"
  for A :: "string \<Rightarrow> ToolArgs \<Rightarrow> bool" where
  constructed: "reachable_via A (new_server cfg default_log fs)"
| called: "reachable_via A s \<Longrightarrow> (\<forall>a. args = Some a \<longrightarrow> A name a) \<Longrightarrow>
           reachable_via A (snd (callTool e s name args))"
| fired: "reachable_via A s \<Longrightarrow> reachable_via A (ghci_handler ev s)"

definition reachable :: "TidalMCPServer \<Rightarrow> bool" where
  "reachable s = reachable_via (\<lambda>name a. True) s"

definition channel_in_set :: "string \<Rightarrow> ToolArgs \<Rightarrow> bool" where
  "channel_in_set name a = (name = ''tidal_eval'' \<longrightarrow> arg_channel a \<in> set valid_channels)"

definition content_nonempty :: "string \<Rightarrow> ToolArgs \<Rightarrow> bool" where
  "content_nonempty name a = (name = ''tidal_eval'' \<longrightarrow> arg_pattern a \<noteq> '''')"

section \<open>Sample inputs\<close>

text \<open>Concrete configurations, environments and arguments, for evaluating the model.\<close>

definition file_config :: TidalConfig where
  "file_config =
     \<lparr>tidalFile = ''out.tidal'', bootTidalPath = None, useGhci = False, logFile = None\<rparr>"

definition ghci_config :: TidalConfig where
  "ghci_config =
     \<lparr>tidalFile = ''out.tidal'', bootTidalPath = None, useGhci = True, logFile = None\<rparr>"

definition quiet_env :: env where
  "quiet_env =
     \<lparr>log_iso = ''2024-01-01T00:00:00.000Z'', log_fails = False, now_state = 5000,
      now_history = 5000, now_query = (\<lambda>i. 9000), file_iso = ''2024-01-01T00:00:00.001Z'',
      file_write_error = None, spawn_throws = None, spawn_has_stdin = True, init_events = [],
      stdin_write_error = None\<rparr>"


definition eval_args :: "string \<Rightarrow> string \<Rightarrow> ToolArgs" where
  "eval_args c p = \<lparr>arg_channel = c, arg_pattern = p, arg_limit = None\<rparr>"

definition file_server :: TidalMCPServer where
  "file_server = new_server file_config ''tidal-mcp-session.log'' Map.empty"

definition ghci_server :: TidalMCPServer where
  "ghci_server = new_server ghci_config ''tidal-mcp-session.log'' Map.empty"

text \<open>A run of evaluate calls, each with its own environment, and the entry each one appends.\<close>

fun eval_calls :: "TidalMCPServer \<Rightarrow> (env \<times> ToolArgs) list \<Rightarrow> TidalMCPServer" where
  "eval_calls s [] = s"
| "eval_calls s ((e, a) # cs) = eval_calls (snd (callTool e s ''tidal_eval'' (Some a))) cs"

definition entry_of :: "env \<times> ToolArgs \<Rightarrow> HistoryEntry" where
  "entry_of ea =
     \<lparr>h_channel = arg_channel (snd ea), h_pattern = arg_pattern (snd ea),
      h_timestamp = now_history (fst ea)\<rparr>"

text \<open>
  The contract of \<open>getActive\<close> in the words of the specification: the records of the channels
  whose active flag is true, in the order of the channel identifiers \<open>d1\<close> to \<open>d9\<close>.
\<close>

definition getActive_spec :: "TidalMCPServer \<Rightarrow> ChannelState list" where
  "getActive_spec s =
     concat (map (\<lambda>c. case map_of (channels s) c of
                         None \<Rightarrow> []
                       | Some st \<Rightarrow> if active st then [st] else [])
                 valid_channels)"

text \<open>
  The subprocess scenario: \<open>ghci_waiting\<close> is the server while a first \<open>sendToGhci\<close> waits
  for the subprocess it has spawned to initialise.
\<close>

definition ghci_waiting :: TidalMCPServer where
  "ghci_waiting = snd (sendToGhci_enter quiet_env ghci_server)"

text \<open>
  What the operations keep true of the channel store: its keys are distinct and begin with
  \<open>d1\<close> to \<open>d9\<close> in this order, every record is stored under its own identifier, and an
  inactive record has empty content.
\<close>

definition store_ok :: "(string \<times> ChannelState) list \<Rightarrow> bool" where
  "store_ok m =
     (distinct (map fst m) \<and>
      take (length valid_channels) (map fst m) = valid_channels \<and>
      (\<forall>(k, st) \<in> set m. channel st = k \<and> (\<not> active st \<longrightarrow> pattern st = '''')))"

text \<open>The active flag of the record stored under an identifier, false when there is none.\<close>

definition is_active :: "TidalMCPServer \<Rightarrow> string \<Rightarrow> bool" where
  "is_active s c = (case map_of (channels s) c of None \<Rightarrow> False | Some st \<Rightarrow> active st)"

text \<open>The active flag of every record is false exactly when its content is empty.\<close>

definition flags_agree :: "(string \<times> ChannelState) list \<Rightarrow> bool" where
  "flags_agree m = (\<forall>(k, st) \<in> set m. (\<not> active st) = (pattern st = ''''))"

text \<open>
  Sample sessions. \<open>played_server\<close>: \<open>d3\<close> and \<open>d2\<close> are evaluated, then \<open>d3\<close> is silenced.
  \<open>ordered_server\<close>: \<open>d2\<close> is evaluated before \<open>d1\<close>. \<open>stray_server\<close> and \<open>stray_server_rev\<close>:
  the identifiers \<open>d11\<close> and \<open>d10\<close>, outside the set, are evaluated in the one and in the
  other order. \<open>history_server\<close>: three evaluate calls at different times.
\<close>

definition played_server :: TidalMCPServer where
  "played_server =
     snd (callTool quiet_env
            (eval_calls file_server
               [(quiet_env, eval_args ''d3'' ''X''), (quiet_env, eval_args ''d2'' ''Y'')])
            ''tidal_silence'' (Some (eval_args ''d3'' '''')))"

definition ordered_server :: TidalMCPServer where
  "ordered_server =
     eval_calls file_server
       [(quiet_env, eval_args ''d2'' ''Z''), (quiet_env, eval_args ''d1'' ''X'')]"

definition stray_server :: TidalMCPServer where
  "stray_server =
     eval_calls file_server
       [(quiet_env, eval_args ''d11'' ''A''), (quiet_env, eval_args ''d10'' ''B'')]"

definition stray_server_rev :: TidalMCPServer where
  "stray_server_rev =
     eval_calls file_server
       [(quiet_env, eval_args ''d10'' ''B''), (quiet_env, eval_args ''d11'' ''A'')]"

definition history_calls :: "(env \<times> ToolArgs) list" where
  "history_calls =
     [(quiet_env\<lparr>now_history := 1000\<rparr>, eval_args ''d1'' ''X''),
      (quiet_env\<lparr>now_history := 3000\<rparr>, eval_args ''d2'' ''Y''),
      (quiet_env\<lparr>now_history := 5000\<rparr>, eval_args ''d1'' ''Z'')]"

definition history_server :: TidalMCPServer where
  "history_server = eval_calls file_server history_calls"

section \<open>What the sinks and the log leave alone\<close>

lemma valid_channels_eq:
  "valid_channels = [''d1'', ''d2'', ''d3'', ''d4'', ''d5'', ''d6'', ''d7'', ''d8'', ''d9'']"
  by code_simp

lemma log_keeps [simp]:
  "channels (logAction e s a d) = channels s"
  "patternHistory (logAction e s a d) = patternHistory s"
  "config (logAction e s a d) = config s"
  "ghciProcess (logAction e s a d) = ghciProcess s"
  "ghciStreamAlive (logAction e s a d) = ghciStreamAlive s"
  "isReconnecting (logAction e s a d) = isReconnecting s"
  "spawn_count (logAction e s a d) = spawn_count s"
  "channels (logPatternEvaluation e s r c p) = channels s"
  "patternHistory (logPatternEvaluation e s r c p) = patternHistory s"
  "config (logPatternEvaluation e s r c p) = config s"
  by (simp_all add: logAction_def logPatternEvaluation_def Let_def)

lemma handler_keeps [simp]:
  "channels (ghci_handler ev s) = channels s"
  "patternHistory (ghci_handler ev s) = patternHistory s"
  "config (ghci_handler ev s) = config s"
  "files (ghci_handler ev s) = files s"
  "spawn_count (ghci_handler ev s) = spawn_count s"
  by (cases ev; simp)+

lemma fire_keeps [simp]:
  "channels (fire evs s) = channels s"
  "patternHistory (fire evs s) = patternHistory s"
  "config (fire evs s) = config s"
  "files (fire evs s) = files s"
  "spawn_count (fire evs s) = spawn_count s"
  unfolding fire_def by (induction evs arbitrary: s; simp)+

lemma writeToTidalFile_keeps [simp]:
  "channels (snd (writeToTidalFile e s code)) = channels s"
  "patternHistory (snd (writeToTidalFile e s code)) = patternHistory s"
  "config (snd (writeToTidalFile e s code)) = config s"
  "ghciProcess (snd (writeToTidalFile e s code)) = ghciProcess s"
  "spawn_count (snd (writeToTidalFile e s code)) = spawn_count s"
  by (simp_all add: writeToTidalFile_def split: option.splits)

lemma startGhci_begin_keeps [simp]:
  "channels (snd (startGhci_begin e s)) = channels s"
  "patternHistory (snd (startGhci_begin e s)) = patternHistory s"
  "config (snd (startGhci_begin e s)) = config s"
  "files (snd (startGhci_begin e s)) = files s"
  by (simp_all add: startGhci_begin_def Let_def split: option.splits)

lemma sendToGhci_enter_keeps [simp]:
  "channels (snd (sendToGhci_enter e s)) = channels s"
  "patternHistory (snd (sendToGhci_enter e s)) = patternHistory s"
  "config (snd (sendToGhci_enter e s)) = config s"
  "files (snd (sendToGhci_enter e s)) = files s"
proof -
  obtain r s1 where b: "startGhci_begin e (s\<lparr>isReconnecting := True\<rparr>) = (r, s1)"
    by (cases "startGhci_begin e (s\<lparr>isReconnecting := True\<rparr>)")
  have k: "channels s1 = channels s" "patternHistory s1 = patternHistory s"
    "config s1 = config s" "files s1 = files s"
    using startGhci_begin_keeps [of e "s\<lparr>isReconnecting := True\<rparr>"] b by simp_all
  show "channels (snd (sendToGhci_enter e s)) = channels s"
    "patternHistory (snd (sendToGhci_enter e s)) = patternHistory s"
    "config (snd (sendToGhci_enter e s)) = config s"
    "files (snd (sendToGhci_enter e s)) = files s"
    using b k by (simp_all add: sendToGhci_enter_def split: sum.splits)
qed

lemma sendToGhci_write_keeps [simp]:
  "channels (snd (sendToGhci_write e s code)) = channels s"
  "patternHistory (snd (sendToGhci_write e s code)) = patternHistory s"
  "config (snd (sendToGhci_write e s code)) = config s"
  "files (snd (sendToGhci_write e s code)) = files s"
  "spawn_count (snd (sendToGhci_write e s code)) = spawn_count s"
  by (simp_all add: sendToGhci_write_def Let_def split: option.splits)

lemma sendToGhci_keeps [simp]:
  "channels (snd (sendToGhci e s code)) = channels s"
  "patternHistory (snd (sendToGhci e s code)) = patternHistory s"
  "config (snd (sendToGhci e s code)) = config s"
  "files (snd (sendToGhci e s code)) = files s"
proof -
  obtain r s1 where b: "sendToGhci_enter e s = (r, s1)"
    by (cases "sendToGhci_enter e s")
  have k: "channels s1 = channels s" "patternHistory s1 = patternHistory s"
    "config s1 = config s" "files s1 = files s"
    using sendToGhci_enter_keeps [of e s] b by simp_all
  show "channels (snd (sendToGhci e s code)) = channels s"
    "patternHistory (snd (sendToGhci e s code)) = patternHistory s"
    "config (snd (sendToGhci e s code)) = config s"
    "files (snd (sendToGhci e s code)) = files s"
    using b k by (simp_all add: sendToGhci_def sendToGhci_resume_def split: entered.splits)
qed

lemma submit_keeps [simp]:
  "channels (snd (submit e s code)) = channels s"
  "patternHistory (snd (submit e s code)) = patternHistory s"
  "config (snd (submit e s code)) = config s"
  by (simp_all add: submit_def)

lemma snd_relabel [simp]:
  "snd (case x of (a, s') \<Rightarrow> (case a of Inl m \<Rightarrow> (g m, s') | Inr u \<Rightarrow> (h u, s'))) = snd x"
  by (cases x) (simp split: sum.splits)

lemma evalPattern_store:
  "channels (snd (evalPattern e s c p)) =
     map_set (channels s) c \<lparr>channel = c, pattern = p, timestamp = now_state e, active = True\<rparr>"
  "patternHistory (snd (evalPattern e s c p)) =
     patternHistory s @ [\<lparr>h_channel = c, h_pattern = p, h_timestamp = now_history e\<rparr>]"
  "config (snd (evalPattern e s c p)) = config s"
  by (simp_all add: evalPattern_def Let_def)

lemma hush_store:
  "channels (snd (hush e s)) = map (\<lambda>(k, st). (k, clear st)) (channels s)"
  "patternHistory (snd (hush e s)) = patternHistory s"
  "config (snd (hush e s)) = config s"
  by (simp_all add: hush_def Let_def)

lemma silence_store:
  "channels (snd (silence e s c)) = map_modify (channels s) c clear"
  "patternHistory (snd (silence e s c)) = patternHistory s"
  "config (snd (silence e s c)) = config s"
  by (simp_all add: silence_def Let_def)

lemma solo_store:
  "channels (snd (solo e s c)) = channels s"
  "patternHistory (snd (solo e s c)) = patternHistory s"
  "config (snd (solo e s c)) = config s"
  by (simp_all add: solo_def Let_def)

lemma unsolo_store:
  "channels (snd (unsolo e s)) = channels s"
  "patternHistory (snd (unsolo e s)) = patternHistory s"
  "config (snd (unsolo e s)) = config s"
  by (simp_all add: unsolo_def Let_def)

lemma query_keeps [simp]:
  "snd (getState e s) = s"
  "snd (getHistory e s l) = s"
  by (simp_all add: getState_def getHistory_def Let_def)

lemma callTool_snd:
  "snd (callTool e s name args) = snd (dispatch e s name args)"
  by (cases "dispatch e s name args") (simp add: callTool_def split: sum.splits)

section \<open>The file sink replaces the file\<close>

text \<open>
  C9. When the write succeeds, \<open>writeToTidalFile\<close> changes the configured file and nothing
  else, and the file then holds exactly the two comment lines (the name of the tool, and the
  time of generation as \<open>toISOString\<close> printed it), an empty line, the command and a line feed.
  Nothing of the previous content of the file survives: the new content is the same for every
  state \<open>s\<close>, whatever \<open>files s\<close> held at that path.
\<close>

theorem writeToTidalFile_full_replace:
  "file_write_error e = None \<Longrightarrow>
     writeToTidalFile e s code =
       (Inr (),
        s\<lparr>files := (files s)(tidalFile (config s) \<mapsto>
             ''-- TidalCycles MCP Server'' @ nl @ ''-- Auto-generated at '' @ file_iso e
             @ nl @ nl @ code @ nl)\<rparr>) \<and>
     files (snd (writeToTidalFile e s code)) (tidalFile (config s)) =
       Some (''-- TidalCycles MCP Server'' @ nl @ ''-- Auto-generated at '' @ file_iso e
             @ nl @ nl @ code @ nl)"
  by (simp add: writeToTidalFile_def file_content_def)

theorem writeToTidalFile_full_replace_witness:
  "file_write_error quiet_env = None \<and>
   files (snd (writeToTidalFile quiet_env
                 (file_server\<lparr>files := [''out.tidal'' \<mapsto> ''d1 $ silence'']\<rparr>) ''hush''))
         ''out.tidal'' =
     Some (''-- TidalCycles MCP Server'' @ nl
           @ ''-- Auto-generated at 2024-01-01T00:00:00.001Z'' @ nl @ nl @ ''hush'' @ nl)"
proof -
  have h: "file_write_error quiet_env = None"
    by (simp add: quiet_env_def)
  show ?thesis
    using h writeToTidalFile_full_replace
            [OF h, of "file_server\<lparr>files := [''out.tidal'' \<mapsto> ''d1 $ silence'']\<rparr>" "''hush''"]
    by (simp add: quiet_env_def file_server_def new_server_def file_config_def)
qed

section \<open>The history query\<close>

lemma slice_from_suffix:
  "0 < k \<Longrightarrow> k \<le> length xs \<Longrightarrow> slice_from xs (- int k) = drop (length xs - k) xs"
  by (simp add: slice_from_def Let_def nat_diff_distrib')

lemma recent_take:
  assumes "0 < k" "k \<le> length xs"
  shows "recent xs (int k) = take k (rev xs)"
proof -
  have "rev (drop (length xs - k) xs) = take k (rev xs)"
    using assms by (simp add: rev_drop)
  then show ?thesis
    using assms by (simp add: recent_def slice_from_suffix)
qed

lemma eval_calls_history:
  "patternHistory (eval_calls s cs) = patternHistory s @ map entry_of cs"
proof (induction cs arbitrary: s)
  case Nil
  then show ?case by simp
next
  case (Cons ea cs)
  obtain e a where ea: "ea = (e, a)" by (cases ea)
  have "patternHistory (snd (callTool e s ''tidal_eval'' (Some a))) =
          patternHistory s @ [entry_of (e, a)]"
    by (simp add: callTool_snd dispatch_def evalPattern_store entry_of_def)
  then show ?case
    using Cons.IH [of "snd (callTool e s ''tidal_eval'' (Some a))"] ea by simp
qed

lemma enumerate_empty [simp]: "(enumerate n xs = []) = (xs = [])"
  by (cases xs) simp_all

lemma join_lines:
  "xs \<noteq> [] \<Longrightarrow> sep @ join sep xs = concat (map (\<lambda>x. sep @ x) xs)"
  by (induction sep xs rule: join.induct) simp_all

text \<open>
  C6. After \<open>N\<close> evaluate calls, made in any state and whatever their sinks did, the entries
  that the history query selects for a limit \<open>k\<close> with \<open>0 < k \<le> N\<close> are the entries of the
  last \<open>k\<close> calls, the latest first. The text it returns is the heading followed by one line
  for each of these entries and no other, in this order: a line feed, the label \<open>k - idx\<close>,
  the channel, the content and the age in seconds. A query without a limit is the query with
  limit 10.
\<close>

theorem getHistory_recent_last_k:
  "(0 < k \<and> k \<le> length cs \<longrightarrow>
      recent (patternHistory (eval_calls s cs)) (int k) = take k (rev (map entry_of cs)) \<and>
      getHistory e (eval_calls s cs) (Some (int k)) =
        (Inr (''Recent patterns:''
              @ concat (map (\<lambda>(idx, entry).
                              nl @ string_of_int (int k - int idx) @ ''. '' @ h_channel entry
                              @ '': '' @ h_pattern entry @ '' (''
                              @ string_of_int ((now_query e idx - h_timestamp entry) div 1000)
                              @ ''s ago)'')
                            (enumerate 0 (take k (rev (map entry_of cs)))))),
         eval_calls s cs)) \<and>
   getHistory e s None = getHistory e s (Some 10)"
proof
  show "0 < k \<and> k \<le> length cs \<longrightarrow>
      recent (patternHistory (eval_calls s cs)) (int k) = take k (rev (map entry_of cs)) \<and>
      getHistory e (eval_calls s cs) (Some (int k)) =
        (Inr (''Recent patterns:''
              @ concat (map (\<lambda>(idx, entry).
                              nl @ string_of_int (int k - int idx) @ ''. '' @ h_channel entry
                              @ '': '' @ h_pattern entry @ '' (''
                              @ string_of_int ((now_query e idx - h_timestamp entry) div 1000)
                              @ ''s ago)'')
                            (enumerate 0 (take k (rev (map entry_of cs)))))),
         eval_calls s cs)"
  proof
    assume k: "0 < k \<and> k \<le> length cs"
    let ?h = "patternHistory s @ map entry_of cs"
    let ?T = "take k (rev (map entry_of cs))"
    let ?line = "\<lambda>(idx, entry).
                   nl @ string_of_int (int k - int idx) @ ''. '' @ h_channel entry
                   @ '': '' @ h_pattern entry @ '' (''
                   @ string_of_int ((now_query e idx - h_timestamp entry) div 1000)
                   @ ''s ago)''"
    have "recent ?h (int k) = take k (rev ?h)"
      using k by (intro recent_take) simp_all
    then have r: "recent (patternHistory (eval_calls s cs)) (int k) = ?T"
      using k by (simp add: eval_calls_history)
    have ne: "?T \<noteq> []"
      using k by auto
    have "length (map (history_line e (int k)) (enumerate 0 ?T)) = length ?T"
      by simp
    with ne have ne': "map (history_line e (int k)) (enumerate 0 ?T) \<noteq> []"
      by (metis length_0_conv)
    have each: "nl @ history_line e (int k) x = ?line x" for x
      by (cases x) (simp add: history_line_def elapsed_def)
    have "nl @ join nl (map (history_line e (int k)) (enumerate 0 ?T)) =
          concat (map (\<lambda>x. nl @ x) (map (history_line e (int k)) (enumerate 0 ?T)))"
      using ne' by (rule join_lines)
    also have "\<dots> = concat (map (\<lambda>x. nl @ history_line e (int k) x) (enumerate 0 ?T))"
      by (simp only: map_map comp_def)
    also have "\<dots> = concat (map ?line (enumerate 0 ?T))"
      by (simp only: each)
    finally have lines: "nl @ join nl (map (history_line e (int k)) (enumerate 0 ?T)) =
          concat (map ?line (enumerate 0 ?T))" .
    have "getHistory e (eval_calls s cs) (Some (int k)) =
        (Inr (''Recent patterns:'' @ (nl @ join nl (map (history_line e (int k)) (enumerate 0 ?T)))),
         eval_calls s cs)"
      using r ne by (simp add: getHistory_def Let_def)
    then have "getHistory e (eval_calls s cs) (Some (int k)) =
        (Inr (''Recent patterns:'' @ concat (map ?line (enumerate 0 ?T))), eval_calls s cs)"
      by (simp only: lines)
    with r show "recent (patternHistory (eval_calls s cs)) (int k) = ?T \<and>
      getHistory e (eval_calls s cs) (Some (int k)) =
        (Inr (''Recent patterns:'' @ concat (map ?line (enumerate 0 ?T))), eval_calls s cs)"
      by (rule conjI)
  qed
  show "getHistory e s None = getHistory e s (Some 10)"
    by (simp add: getHistory_def)
qed

theorem getHistory_recent_last_k_witness:
  "((0::nat) < 2 \<and> (2::nat) \<le> length history_calls) \<and>
   recent (patternHistory history_server) 2 =
     [\<lparr>h_channel = ''d1'', h_pattern = ''Z'', h_timestamp = 5000\<rparr>,
      \<lparr>h_channel = ''d2'', h_pattern = ''Y'', h_timestamp = 3000\<rparr>] \<and>
   fst (getHistory quiet_env history_server (Some 2)) =
     Inr (''Recent patterns:'' @ nl @ ''2. d1: Z (4s ago)'' @ nl @ ''1. d2: Y (6s ago)'') \<and>
   fst (getHistory quiet_env history_server None) =
     Inr (''Recent patterns:'' @ nl @ ''10. d1: Z (4s ago)'' @ nl @ ''9. d2: Y (6s ago)''
          @ nl @ ''8. d1: X (8s ago)'')"
proof -
  have h: "(0::nat) < 2 \<and> (2::nat) \<le> length history_calls"
    by code_simp
  have v: "take 2 (rev (map entry_of history_calls)) =
      [\<lparr>h_channel = ''d1'', h_pattern = ''Z'', h_timestamp = 5000\<rparr>,
       \<lparr>h_channel = ''d2'', h_pattern = ''Y'', h_timestamp = 3000\<rparr>]"
    by code_simp
  have l: "''Recent patterns:''
      @ concat (map (\<lambda>(idx, entry).
                      nl @ string_of_int (int 2 - int idx) @ ''. '' @ h_channel entry
                      @ '': '' @ h_pattern entry @ '' (''
                      @ string_of_int ((now_query quiet_env idx - h_timestamp entry) div 1000)
                      @ ''s ago)'')
                    (enumerate 0
                       [\<lparr>h_channel = ''d1'', h_pattern = ''Z'', h_timestamp = 5000\<rparr>,
                        \<lparr>h_channel = ''d2'', h_pattern = ''Y'', h_timestamp = 3000\<rparr>])) =
      ''Recent patterns:'' @ nl @ ''2. d1: Z (4s ago)'' @ nl @ ''1. d2: Y (6s ago)''"
    by code_simp
  have d: "fst (getHistory quiet_env history_server (Some 10)) =
     Inr (''Recent patterns:'' @ nl @ ''10. d1: Z (4s ago)'' @ nl @ ''9. d2: Y (6s ago)''
          @ nl @ ''8. d1: X (8s ago)'')"
    by code_simp
  note t = getHistory_recent_last_k [of 2 history_calls file_server quiet_env]
  note t2 = getHistory_recent_last_k [of 0 "[]" history_server quiet_env]
  from t h
  have a: "recent (patternHistory (eval_calls file_server history_calls)) (int 2) =
        take 2 (rev (map entry_of history_calls))"
    and b: "getHistory quiet_env (eval_calls file_server history_calls) (Some (int 2)) =
        (Inr (''Recent patterns:''
              @ concat (map (\<lambda>(idx, entry).
                              nl @ string_of_int (int 2 - int idx) @ ''. '' @ h_channel entry
                              @ '': '' @ h_pattern entry @ '' (''
                              @ string_of_int ((now_query quiet_env idx - h_timestamp entry) div 1000)
                              @ ''s ago)'')
                            (enumerate 0 (take 2 (rev (map entry_of history_calls)))))),
         eval_calls file_server history_calls)"
    by blast+
  from a have 1: "recent (patternHistory history_server) 2 =
     [\<lparr>h_channel = ''d1'', h_pattern = ''Z'', h_timestamp = 5000\<rparr>,
      \<lparr>h_channel = ''d2'', h_pattern = ''Y'', h_timestamp = 3000\<rparr>]"
    unfolding v history_server_def by simp
  from b have "fst (getHistory quiet_env (eval_calls file_server history_calls) (Some (int 2))) =
      Inr (''Recent patterns:'' @ nl @ ''2. d1: Z (4s ago)'' @ nl @ ''1. d2: Y (6s ago)'')"
    unfolding v l by simp
  then have 2: "fst (getHistory quiet_env history_server (Some 2)) =
      Inr (''Recent patterns:'' @ nl @ ''2. d1: Z (4s ago)'' @ nl @ ''1. d2: Y (6s ago)'')"
    unfolding history_server_def by simp
  from t2 have "getHistory quiet_env history_server None =
      getHistory quiet_env history_server (Some 10)"
    by blast
  with d have 3: "fst (getHistory quiet_env history_server None) =
     Inr (''Recent patterns:'' @ nl @ ''10. d1: Z (4s ago)'' @ nl @ ''9. d2: Y (6s ago)''
          @ nl @ ''8. d1: X (8s ago)'')"
    by simp
  from h 1 2 3 show ?thesis by blast
qed

text \<open>
  C5. With limit 0 the method evaluates \<open>slice(-0)\<close>, which is the whole array: the query
  returns every entry, numbered from 0 downwards. With a negative limit \<open>-n\<close> it evaluates
  \<open>slice(n)\<close> and returns all but the oldest \<open>n\<close> entries.
\<close>

theorem getHistory_limit_zero:
  "recent (patternHistory (eval_calls file_server [(quiet_env, eval_args ''d1'' ''X'')])) 0 =
     [\<lparr>h_channel = ''d1'', h_pattern = ''X'', h_timestamp = 5000\<rparr>] \<and>
   fst (getHistory quiet_env (eval_calls file_server [(quiet_env, eval_args ''d1'' ''X'')]) (Some 0)) =
     Inr (''Recent patterns:'' @ nl @ ''0. d1: X (4s ago)'') \<and>
   recent (patternHistory (eval_calls file_server
      [(quiet_env, eval_args ''d1'' ''X''), (quiet_env, eval_args ''d2'' ''Y'')])) (- 1) =
     [\<lparr>h_channel = ''d2'', h_pattern = ''Y'', h_timestamp = 5000\<rparr>]"
  by code_simp


lemma fst_relabel_Inr:
  "fst (case x of (a, s') \<Rightarrow> (case a of Inl m \<Rightarrow> (Inl m, s') | Inr u \<Rightarrow> (Inr (h u), s')))
      = Inr t \<Longrightarrow> fst x = Inr ()"
  by (cases x) (simp split: sum.splits)

section \<open>Hush\<close>

lemma clear_clear [simp]: "clear (clear st) = clear st"
  by (simp add: clear_def)

lemma clear_fields [simp]: "pattern (clear st) = ''''" "active (clear st) = False"
  "channel (clear st) = channel st"
  by (simp_all add: clear_def)

text \<open>
  C8. A second \<open>hush\<close> leaves the channel store as the first one left it, whatever the state
  before and whatever the sinks did; after a \<open>hush\<close> every record of the store has empty
  content and is inactive.
\<close>

theorem hush_idempotent:
  "channels (snd (hush e2 (snd (hush e1 s)))) = channels (snd (hush e1 s)) \<and>
   (\<forall>st \<in> set (map_values (channels (snd (hush e1 s)))). pattern st = '''' \<and> \<not> active st)"
  by (auto simp: hush_store map_values_def)

theorem hush_idempotent_witness:
  "\<lparr>channel = ''d2'', pattern = '''', timestamp = 5000, active = False\<rparr>
     \<in> set (map_values (channels (snd (hush quiet_env
             (eval_calls file_server [(quiet_env, eval_args ''d2'' ''Z'')]))))) \<and>
   (pattern \<lparr>channel = ''d2'', pattern = '''', timestamp = 5000, active = False\<rparr> = '''' \<and>
    \<not> active \<lparr>channel = ''d2'', pattern = '''', timestamp = 5000, active = False\<rparr>) \<and>
   channels (snd (hush quiet_env (snd (hush quiet_env
             (eval_calls file_server [(quiet_env, eval_args ''d2'' ''Z'')]))))) =
   channels (snd (hush quiet_env (eval_calls file_server [(quiet_env, eval_args ''d2'' ''Z'')])))"
proof -
  note t = hush_idempotent
      [of quiet_env quiet_env "eval_calls file_server [(quiet_env, eval_args ''d2'' ''Z'')]"]
  have m: "\<lparr>channel = ''d2'', pattern = '''', timestamp = 5000, active = False\<rparr>
     \<in> set (map_values (channels (snd (hush quiet_env
             (eval_calls file_server [(quiet_env, eval_args ''d2'' ''Z'')])))))"
    by code_simp
  from t have "\<forall>st \<in> set (map_values (channels (snd (hush quiet_env
             (eval_calls file_server [(quiet_env, eval_args ''d2'' ''Z'')]))))).
       pattern st = '''' \<and> \<not> active st"
    by (rule conjunct2)
  from this m
  have c: "pattern \<lparr>channel = ''d2'', pattern = '''', timestamp = 5000, active = False\<rparr> = '''' \<and>
    \<not> active \<lparr>channel = ''d2'', pattern = '''', timestamp = 5000, active = False\<rparr>"
    by (rule bspec)
  from t have i: "channels (snd (hush quiet_env (snd (hush quiet_env
             (eval_calls file_server [(quiet_env, eval_args ''d2'' ''Z'')]))))) =
   channels (snd (hush quiet_env (eval_calls file_server [(quiet_env, eval_args ''d2'' ''Z'')])))"
    by (rule conjunct1)
  from m c i show ?thesis by blast
qed

section \<open>Unsolo\<close>

lemma sendToGhci_write_sent:
  assumes "fst (sendToGhci_write e s code) = Inr u"
  shows "\<exists>p. ghciProcess (snd (sendToGhci_write e s code)) = Some p \<and>
             stdin_written p \<noteq> [] \<and> last (stdin_written p) = code @ nl"
  using assms by (auto simp: sendToGhci_write_def Let_def split: option.splits if_splits)

lemma sendToGhci_sent:
  assumes "fst (sendToGhci e s code) = Inr u"
  shows "\<exists>p. ghciProcess (snd (sendToGhci e s code)) = Some p \<and>
             stdin_written p \<noteq> [] \<and> last (stdin_written p) = code @ nl"
proof (cases "sendToGhci_enter e s")
  case (Pair r s1)
  show ?thesis
  proof (cases r)
    case (Threw msg)
    with Pair assms show ?thesis by (simp add: sendToGhci_def)
  next
    case (Awaiting waits)
    with Pair assms show ?thesis
      using sendToGhci_write_sent
        [of e "sendToGhci_resume (if waits then fire (init_events e) s1 else s1)" code u]
      by (simp add: sendToGhci_def)
  next
    case Proceed
    with Pair assms show ?thesis
      using sendToGhci_write_sent [of e s1 code u] by (simp add: sendToGhci_def)
  qed
qed

text \<open>
  C10. \<open>unsolo\<close> takes no channel. The state it leaves is the state that submitting the fixed
  text \<open>unsolo $ d1\<close> leaves: with the file sink the configured file holds the header and that
  line, with the process sink a successful call has written that line last to the
  subprocess. The channel store and the history are as before the call.
\<close>

theorem unsolo_fixed_command:
  "snd (unsolo e s) =
     snd (submit e (logAction e s ''UNSOLO'' (Some ''Restored all channels'')) ''unsolo $ d1'') \<and>
   channels (snd (unsolo e s)) = channels s \<and>
   patternHistory (snd (unsolo e s)) = patternHistory s \<and>
   (\<not> useGhci (config s) \<and> file_write_error e = None \<longrightarrow>
      files (snd (unsolo e s)) (tidalFile (config s)) = Some (file_content e ''unsolo $ d1'')) \<and>
   (useGhci (config s) \<and> fst (unsolo e s) = Inr t \<longrightarrow>
      (\<exists>p. ghciProcess (snd (unsolo e s)) = Some p \<and> stdin_written p \<noteq> [] \<and>
           last (stdin_written p) = ''unsolo $ d1'' @ nl))"
proof -
  let ?s1 = "logAction e s ''UNSOLO'' (Some ''Restored all channels'')"
  have st: "snd (unsolo e s) = snd (submit e ?s1 ''unsolo $ d1'')"
    by (simp add: unsolo_def Let_def)
  have fl: "\<not> useGhci (config s) \<and> file_write_error e = None \<longrightarrow>
      files (snd (unsolo e s)) (tidalFile (config s)) = Some (file_content e ''unsolo $ d1'')"
    by (simp add: st submit_def writeToTidalFile_def)
  have ghci: "useGhci (config s) \<and> fst (unsolo e s) = Inr t \<longrightarrow>
      (\<exists>p. ghciProcess (snd (unsolo e s)) = Some p \<and> stdin_written p \<noteq> [] \<and>
           last (stdin_written p) = ''unsolo $ d1'' @ nl)"
  proof
    assume a: "useGhci (config s) \<and> fst (unsolo e s) = Inr t"
    then have "fst (unsolo e s) = Inr t"
      by simp
    then have "fst (submit e ?s1 ''unsolo $ d1'') = Inr ()"
      unfolding unsolo_def Let_def by (rule fst_relabel_Inr)
    with a have "fst (sendToGhci e ?s1 ''unsolo $ d1'') = Inr ()"
      by (simp add: submit_def)
    from sendToGhci_sent [OF this] a show
      "\<exists>p. ghciProcess (snd (unsolo e s)) = Some p \<and> stdin_written p \<noteq> [] \<and>
           last (stdin_written p) = ''unsolo $ d1'' @ nl"
      by (simp add: st submit_def)
  qed
  from st fl ghci show ?thesis
    by (simp add: unsolo_store)
qed

theorem unsolo_fixed_command_witness:
  "(\<not> useGhci (config file_server) \<and> file_write_error quiet_env = None) \<and>
   files (snd (unsolo quiet_env file_server)) ''out.tidal'' =
     Some (''-- TidalCycles MCP Server'' @ nl
           @ ''-- Auto-generated at 2024-01-01T00:00:00.001Z'' @ nl @ nl @ ''unsolo $ d1'' @ nl) \<and>
   (useGhci (config ghci_server) \<and>
    fst (unsolo quiet_env ghci_server) = Inr (check_mark @ '' Unsolo applied. All channels restored.'')) \<and>
   (\<exists>p. ghciProcess (snd (unsolo quiet_env ghci_server)) = Some p \<and> stdin_written p \<noteq> [] \<and>
        last (stdin_written p) = ''unsolo $ d1'' @ nl)"
proof -
  have f: "\<not> useGhci (config file_server) \<and> file_write_error quiet_env = None"
    by code_simp
  have g: "useGhci (config ghci_server) \<and>
    fst (unsolo quiet_env ghci_server) = Inr (check_mark @ '' Unsolo applied. All channels restored.'')"
    by code_simp
  have t: "tidalFile (config file_server) = ''out.tidal''"
    by code_simp
  have c: "file_content quiet_env ''unsolo $ d1'' =
      ''-- TidalCycles MCP Server'' @ nl
      @ ''-- Auto-generated at 2024-01-01T00:00:00.001Z'' @ nl @ nl @ ''unsolo $ d1'' @ nl"
    by code_simp
  note u = unsolo_fixed_command [of quiet_env file_server]
  from u have "\<not> useGhci (config file_server) \<and> file_write_error quiet_env = None \<longrightarrow>
      files (snd (unsolo quiet_env file_server)) (tidalFile (config file_server)) =
        Some (file_content quiet_env ''unsolo $ d1'')"
    by blast
  from this f have "files (snd (unsolo quiet_env file_server)) (tidalFile (config file_server)) =
        Some (file_content quiet_env ''unsolo $ d1'')"
    by (rule mp)
  then have 1: "files (snd (unsolo quiet_env file_server)) ''out.tidal'' =
     Some (''-- TidalCycles MCP Server'' @ nl
           @ ''-- Auto-generated at 2024-01-01T00:00:00.001Z'' @ nl @ nl @ ''unsolo $ d1'' @ nl)"
    unfolding t c .
  from unsolo_fixed_command
         [of quiet_env ghci_server "check_mark @ '' Unsolo applied. All channels restored.''"] g
  have 2: "\<exists>p. ghciProcess (snd (unsolo quiet_env ghci_server)) = Some p \<and>
        stdin_written p \<noteq> [] \<and> last (stdin_written p) = ''unsolo $ d1'' @ nl"
    by blast
  from f 1 g 2 show ?thesis by blast
qed

section \<open>Evaluate\<close>



section \<open>The channel store\<close>

lemma map_set_keys:
  "map fst (map_set m k v) = (if k \<in> set (map fst m) then map fst m else map fst m @ [k])"
  by (induction m) force+

lemma map_set_elems:
  "(k', v') \<in> set (map_set m k v) \<Longrightarrow> (k', v') = (k, v) \<or> (k', v') \<in> set m"
  by (induction m) (auto split: if_splits)

lemma map_modify_keys [simp]: "map fst (map_modify m k f) = map fst m"
  by (induction m) auto

lemma map_modify_elems:
  "(k', v') \<in> set (map_modify m k f) \<Longrightarrow>
     (k', v') \<in> set m \<or> (\<exists>v. (k', v) \<in> set m \<and> v' = f v)"
  by (induction m) (fastforce split: if_splits)+

lemma fst_clear_all [simp]: "fst \<circ> (\<lambda>(k, st). (k, clear st)) = fst"
  by (auto simp: fun_eq_iff)

lemma clear_all_keys [simp]: "map fst (map (\<lambda>(k, st). (k, clear st)) m) = map fst m"
  by simp

lemma init_channels:
  "foldl (\<lambda>m c. map_set m c (init_channel c)) [] valid_channels =
     map (\<lambda>c. (c, init_channel c)) valid_channels"
  by (simp add: valid_channels_eq)

lemma store_ok_init: "store_ok (channels (new_server cfg default_log fs))"
  by (simp add: new_server_def init_channels store_ok_def comp_def init_channel_def
        valid_channels_eq)

lemma store_ok_set:
  assumes "store_ok m"
  shows "store_ok (map_set m c \<lparr>channel = c, pattern = p, timestamp = t, active = True\<rparr>)"
proof -
  let ?m = "map_set m c \<lparr>channel = c, pattern = p, timestamp = t, active = True\<rparr>"
  from assms have d: "distinct (map fst m)"
    and pre: "take (length valid_channels) (map fst m) = valid_channels"
    and el: "\<forall>(k, st) \<in> set m. channel st = k \<and> (\<not> active st \<longrightarrow> pattern st = '''')"
    by (simp_all add: store_ok_def)
  have "distinct (map fst ?m)"
    using d by (simp add: map_set_keys)
  moreover have "take (length valid_channels) (map fst ?m) = valid_channels"
  proof (cases "c \<in> set (map fst m)")
    case True
    then show ?thesis using pre by (simp add: map_set_keys)
  next
    case False
    have "length (take (length valid_channels) (map fst m)) = length valid_channels"
      using pre by simp
    then have "length valid_channels \<le> length (map fst m)"
      by simp
    then show ?thesis using pre False by (simp add: map_set_keys)
  qed
  moreover have "\<forall>(k, st) \<in> set ?m. channel st = k \<and> (\<not> active st \<longrightarrow> pattern st = '''')"
    using el by (auto dest!: map_set_elems)
  ultimately show ?thesis by (simp add: store_ok_def)
qed

lemma store_ok_modify:
  assumes "store_ok m"
  shows "store_ok (map_modify m c clear)"
proof -
  from assms have el: "\<forall>(k, st) \<in> set m. channel st = k \<and> (\<not> active st \<longrightarrow> pattern st = '''')"
    by (simp add: store_ok_def)
  have "\<forall>(k, st) \<in> set (map_modify m c clear).
          channel st = k \<and> (\<not> active st \<longrightarrow> pattern st = '''')"
    using el by (auto dest!: map_modify_elems)
  then show ?thesis using assms by (simp add: store_ok_def)
qed

lemma store_ok_clear_all:
  assumes "store_ok m"
  shows "store_ok (map (\<lambda>(k, st). (k, clear st)) m)"
proof -
  from assms have el: "\<forall>(k, st) \<in> set m. channel st = k \<and> (\<not> active st \<longrightarrow> pattern st = '''')"
    by (simp add: store_ok_def)
  have "\<forall>(k, st) \<in> set (map (\<lambda>(k, st). (k, clear st)) m).
          channel st = k \<and> (\<not> active st \<longrightarrow> pattern st = '''')"
    using el by auto
  then show ?thesis using assms by (simp add: store_ok_def)
qed

lemma dispatch_channels:
  "channels (snd (dispatch e s name args)) = channels s \<or>
   channels (snd (dispatch e s name args)) = map (\<lambda>(k, st). (k, clear st)) (channels s) \<or>
   (\<exists>a. args = Some a \<and>
        (channels (snd (dispatch e s name args)) = map_modify (channels s) (arg_channel a) clear \<or>
         name = ''tidal_eval'' \<and>
         channels (snd (dispatch e s name args)) =
           map_set (channels s) (arg_channel a)
             \<lparr>channel = arg_channel a, pattern = arg_pattern a,
              timestamp = now_state e, active = True\<rparr>))"
  by (cases args)
     (simp_all add: dispatch_def evalPattern_store hush_store silence_store solo_store
        unsolo_store)

lemma store_ok_dispatch:
  assumes "store_ok (channels s)"
  shows "store_ok (channels (snd (dispatch e s name args)))"
  using dispatch_channels [of e s name args] assms
  by (auto intro: store_ok_set store_ok_modify store_ok_clear_all)

lemma reachable_store_ok:
  "reachable_via A s \<Longrightarrow> store_ok (channels s)"
proof (induction rule: reachable_via.induct)
  case (constructed cfg default_log fs)
  show ?case by (rule store_ok_init)
next
  case (called s args name e)
  then show ?case by (simp add: callTool_snd store_ok_dispatch)
next
  case (fired s ev)
  then show ?case by simp
qed

lemma one_record:
  "distinct (map fst m) \<Longrightarrow> c \<in> set (map fst m) \<Longrightarrow>
     length (filter (\<lambda>kv. fst kv = c) m) = 1"
proof (induction m)
  case Nil
  then show ?case by simp
next
  case (Cons kv m)
  show ?case
  proof (cases "fst kv = c")
    case True
    with Cons.prems have "c \<notin> set (map fst m)" by auto
    then have "filter (\<lambda>kv. fst kv = c) m = []"
      by (auto simp: filter_empty_conv)
    with True show ?thesis by simp
  next
    case False
    with Cons show ?thesis by auto
  qed
qed

lemma reachable_via_mono:
  assumes "reachable_via A s" and "\<And>name a. A name a \<Longrightarrow> B name a"
  shows "reachable_via B s"
  using assms(1)
proof (induction rule: reachable_via.induct)
  case (constructed cfg default_log fs)
  show ?case by (rule reachable_via.constructed)
next
  case (called s args name e)
  from called.IH show ?case
    by (rule reachable_via.called) (use called.hyps assms(2) in blast)
next
  case (fired s ev)
  from fired.IH show ?case by (rule reachable_via.fired)
qed

lemma reachable_call:
  "reachable s \<Longrightarrow> reachable (snd (callTool e s name args))"
  unfolding reachable_def by (rule reachable_via.called) simp_all

lemma reachable_init: "reachable (new_server cfg default_log fs)"
  unfolding reachable_def by (rule reachable_via.constructed)

lemma reachable_eval_calls: "reachable s \<Longrightarrow> reachable (eval_calls s cs)"
proof (induction cs arbitrary: s)
  case Nil
  then show ?case by simp
next
  case (Cons ea cs)
  obtain e a where ea: "ea = (e, a)" by (cases ea)
  from Cons.prems have "reachable (snd (callTool e s ''tidal_eval'' (Some a)))"
    by (rule reachable_call)
  then show ?case
    unfolding ea by (simp add: Cons.IH)
qed

lemma reachable_via_eval_calls:
  "reachable_via A s \<Longrightarrow> (\<forall>ea \<in> set cs. A ''tidal_eval'' (snd ea)) \<Longrightarrow>
     reachable_via A (eval_calls s cs)"
proof (induction cs arbitrary: s)
  case Nil
  then show ?case by simp
next
  case (Cons ea cs)
  obtain e a where ea: "ea = (e, a)" by (cases ea)
  from Cons.prems(1) have "reachable_via A (snd (callTool e s ''tidal_eval'' (Some a)))"
    by (rule reachable_via.called) (use Cons.prems(2) ea in simp)
  then show ?case
    unfolding ea using Cons.prems(2) by (simp add: Cons.IH)
qed

lemma flags_agree_init: "flags_agree (channels (new_server cfg default_log fs))"
proof -
  have "channels (new_server cfg default_log fs) = map (\<lambda>c. (c, init_channel c)) valid_channels"
    by (simp add: new_server_def init_channels)
  then show ?thesis
    by (auto simp: flags_agree_def init_channel_def)
qed

lemma flags_agree_set:
  assumes "flags_agree m" and "p \<noteq> ''''"
  shows "flags_agree (map_set m c \<lparr>channel = c, pattern = p, timestamp = t, active = True\<rparr>)"
  using assms unfolding flags_agree_def by (auto dest!: map_set_elems)

lemma flags_agree_modify:
  assumes "flags_agree m"
  shows "flags_agree (map_modify m c clear)"
  using assms unfolding flags_agree_def by (auto dest!: map_modify_elems)

lemma flags_agree_clear_all:
  assumes "flags_agree m"
  shows "flags_agree (map (\<lambda>(k, st). (k, clear st)) m)"
  using assms unfolding flags_agree_def by auto

lemma reachable_flags_agree:
  "reachable_via content_nonempty s \<Longrightarrow> flags_agree (channels s)"
proof (induction rule: reachable_via.induct)
  case (constructed cfg default_log fs)
  show ?case by (rule flags_agree_init)
next
  case (called s args name e)
  have "flags_agree (channels (snd (dispatch e s name args)))"
    using dispatch_channels [of e s name args] called.IH called.hyps
    by (auto simp: content_nonempty_def
          intro: flags_agree_set flags_agree_modify flags_agree_clear_all)
  then show ?case by (simp add: callTool_snd)
next
  case (fired s ev)
  then show ?case by simp
qed

text \<open>
  C2, as the code has it. In every reachable state each of \<open>d1\<close> to \<open>d9\<close> has exactly one
  record in the store, stored under its own identifier, and every inactive record has empty
  content. In every state reached without an evaluate call of empty content, the active flag
  of every record is false exactly when its content is empty. An evaluate call with empty
  content is the one operation that breaks this: it leaves its channel active and empty.
\<close>

theorem reachable_store_invariant:
  "(reachable s \<longrightarrow>
      (\<forall>c \<in> set valid_channels.
         length (filter (\<lambda>kv. fst kv = c) (channels s)) = 1 \<and>
         (\<exists>st. map_of (channels s) c = Some st \<and> channel st = c)) \<and>
      (\<forall>(k, st) \<in> set (channels s). \<not> active st \<longrightarrow> pattern st = '''')) \<and>
   (reachable_via content_nonempty s \<longrightarrow>
      reachable s \<and>
      (\<forall>(k, st) \<in> set (channels s). (\<not> active st) = (pattern st = '''')))"
proof (intro conjI impI)
  assume "reachable s"
  then have ok: "store_ok (channels s)"
    by (simp add: reachable_def reachable_store_ok)
  then have d: "distinct (map fst (channels s))"
    and pre: "take (length valid_channels) (map fst (channels s)) = valid_channels"
    and el: "\<forall>(k, st) \<in> set (channels s). channel st = k \<and> (\<not> active st \<longrightarrow> pattern st = '''')"
    by (simp_all add: store_ok_def)
  have keys: "set valid_channels \<subseteq> set (map fst (channels s))"
    using pre by (metis set_take_subset)
  have "length (filter (\<lambda>kv. fst kv = c) (channels s)) = 1 \<and>
        (\<exists>st. map_of (channels s) c = Some st \<and> channel st = c)"
    if c: "c \<in> set valid_channels" for c
  proof
    from c keys have in_keys: "c \<in> set (map fst (channels s))" by blast
    with d show "length (filter (\<lambda>kv. fst kv = c) (channels s)) = 1"
      by (rule one_record)
    from in_keys obtain st where st: "map_of (channels s) c = Some st"
      by (metis map_of_eq_None_iff not_Some_eq set_map)
    then have "(c, st) \<in> set (channels s)"
      by (rule map_of_SomeD)
    with el have "channel st = c" by auto
    with st show "\<exists>st. map_of (channels s) c = Some st \<and> channel st = c" by blast
  qed
  then show "\<forall>c \<in> set valid_channels.
         length (filter (\<lambda>kv. fst kv = c) (channels s)) = 1 \<and>
         (\<exists>st. map_of (channels s) c = Some st \<and> channel st = c)"
    by blast
  show "\<forall>(k, st) \<in> set (channels s). \<not> active st \<longrightarrow> pattern st = ''''"
    using el by auto
next
  assume r: "reachable_via content_nonempty s"
  then show "reachable s"
    unfolding reachable_def by (rule reachable_via_mono) simp
  from r have "flags_agree (channels s)"
    by (rule reachable_flags_agree)
  then show "\<forall>(k, st) \<in> set (channels s). (\<not> active st) = (pattern st = '''')"
    by (simp add: flags_agree_def)
qed

theorem reachable_store_invariant_witness:
  "reachable_via content_nonempty played_server \<and>
   reachable played_server \<and>
   ''d3'' \<in> set valid_channels \<and>
   length (filter (\<lambda>kv. fst kv = ''d3'') (channels played_server)) = 1 \<and>
   (''d3'', \<lparr>channel = ''d3'', pattern = '''', timestamp = 5000, active = False\<rparr>)
     \<in> set (channels played_server) \<and>
   (''d2'', \<lparr>channel = ''d2'', pattern = ''Y'', timestamp = 5000, active = True\<rparr>)
     \<in> set (channels played_server) \<and>
   (\<not> active \<lparr>channel = ''d3'', pattern = '''', timestamp = 5000, active = False\<rparr>) =
     (pattern \<lparr>channel = ''d3'', pattern = '''', timestamp = 5000, active = False\<rparr> = '''') \<and>
   (\<not> active \<lparr>channel = ''d2'', pattern = ''Y'', timestamp = 5000, active = True\<rparr>) =
     (pattern \<lparr>channel = ''d2'', pattern = ''Y'', timestamp = 5000, active = True\<rparr> = '''')"
proof -
  let ?r3 = "\<lparr>channel = ''d3'', pattern = '''', timestamp = 5000, active = False\<rparr>"
  let ?r2 = "\<lparr>channel = ''d2'', pattern = ''Y'', timestamp = 5000, active = True\<rparr>"
  have c: "content_nonempty ''tidal_eval'' (eval_args ''d3'' ''X'')"
    "content_nonempty ''tidal_eval'' (eval_args ''d2'' ''Y'')"
    "content_nonempty ''tidal_silence'' (eval_args ''d3'' '''')"
    by code_simp+
  have "reachable_via content_nonempty file_server"
    unfolding file_server_def by (rule reachable_via.constructed)
  then have "reachable_via content_nonempty
      (eval_calls file_server
         [(quiet_env, eval_args ''d3'' ''X''), (quiet_env, eval_args ''d2'' ''Y'')])"
    by (rule reachable_via_eval_calls) (simp add: c)
  then have r: "reachable_via content_nonempty played_server"
    unfolding played_server_def by (rule reachable_via.called) (simp add: c)
  have v: "''d3'' \<in> set valid_channels"
    by code_simp
  have m3: "(''d3'', ?r3) \<in> set (channels played_server)"
    by code_simp
  have m2: "(''d2'', ?r2) \<in> set (channels played_server)"
    by code_simp
  note t = reachable_store_invariant [of played_server]
  from t r have g: "reachable played_server"
    by blast
  from t g v have 1: "length (filter (\<lambda>kv. fst kv = ''d3'') (channels played_server)) = 1"
    by blast
  from t r have all: "\<forall>(k, st) \<in> set (channels played_server).
      (\<not> active st) = (pattern st = '''')"
    by blast
  from all m3 have 3: "(\<not> active ?r3) = (pattern ?r3 = '''')"
    by fast
  from all m2 have 2: "(\<not> active ?r2) = (pattern ?r2 = '''')"
    by fast
  from r g v 1 m3 m2 3 2 show ?thesis by blast
qed

text \<open>
  Against C2 as stated: an evaluate call with empty content on \<open>d1\<close> leaves \<open>d1\<close> active with
  empty content.
\<close>

theorem active_with_empty_content:
  "reachable (snd (callTool quiet_env file_server ''tidal_eval'' (Some (eval_args ''d1'' '''')))) \<and>
   map_of (channels (snd (callTool quiet_env file_server ''tidal_eval''
                            (Some (eval_args ''d1'' ''''))))) ''d1'' =
     Some \<lparr>channel = ''d1'', pattern = '''', timestamp = 5000, active = True\<rparr>"
proof
  show "reachable (snd (callTool quiet_env file_server ''tidal_eval'' (Some (eval_args ''d1'' ''''))))"
    unfolding file_server_def by (rule reachable_call) (rule reachable_init)
  show "map_of (channels (snd (callTool quiet_env file_server ''tidal_eval''
                            (Some (eval_args ''d1'' ''''))))) ''d1'' =
     Some \<lparr>channel = ''d1'', pattern = '''', timestamp = 5000, active = True\<rparr>"
    by code_simp
qed

section \<open>The order of the active channels\<close>

lemma init_keys: "map fst (channels (new_server cfg default_log fs)) = valid_channels"
  by (simp add: new_server_def init_channels comp_def)

lemma in_set_keys:
  "reachable_via channel_in_set s \<Longrightarrow> map fst (channels s) = valid_channels"
proof (induction rule: reachable_via.induct)
  case (constructed cfg default_log fs)
  show ?case by (rule init_keys)
next
  case (called s args name e)
  have "map fst (channels (snd (dispatch e s name args))) = map fst (channels s)"
    using dispatch_channels [of e s name args] called.IH called.hyps
    by (auto simp: channel_in_set_def map_set_keys)
  with called.IH show ?case by (simp add: callTool_snd)
next
  case (fired s ev)
  then show ?case by simp
qed

lemma values_in_key_order:
  "distinct (map fst m) \<Longrightarrow>
     concat (map (\<lambda>c. case map_of m c of None \<Rightarrow> [] | Some st \<Rightarrow> if P st then [st] else [])
                 (map fst m)) = filter P (map snd m)"
proof (induction m)
  case Nil
  then show ?case by simp
next
  case (Cons kv m)
  obtain k v where kv: "kv = (k, v)" by (cases kv)
  from Cons.prems kv have fresh: "k \<notin> set (map fst m)" and d: "distinct (map fst m)"
    by simp_all
  let ?F = "\<lambda>c. case map_of ((k, v) # m) c of None \<Rightarrow> []
                 | Some st \<Rightarrow> if P st then [st] else []"
  let ?G = "\<lambda>c. case map_of m c of None \<Rightarrow> [] | Some st \<Rightarrow> if P st then [st] else []"
  have tail: "map ?F (map fst m) = map ?G (map fst m)"
    using fresh by (intro map_cong) auto
  have hd: "?F k = (if P v then [v] else [])"
    by simp
  have "concat (map ?F (map fst ((k, v) # m))) = ?F k @ concat (map ?F (map fst m))"
    by (simp only: list.map fst_conv concat.simps)
  also have "\<dots> = ?F k @ concat (map ?G (map fst m))"
    by (simp only: tail)
  also have "\<dots> = ?F k @ filter P (map snd m)"
    by (simp only: Cons.IH [OF d])
  also have "\<dots> = filter P (map snd ((k, v) # m))"
    unfolding hd by simp
  finally show ?case
    unfolding kv .
qed

lemma channels_of_selected:
  assumes "\<And>c st. map_of m c = Some st \<Longrightarrow> channel st = c"
  shows "map channel
           (concat (map (\<lambda>c. case map_of m c of None \<Rightarrow> []
                             | Some st \<Rightarrow> if active st then [st] else []) cs)) =
         filter (\<lambda>c. case map_of m c of None \<Rightarrow> False | Some st \<Rightarrow> active st) cs"
  using assms by (induction cs) (auto split: option.splits)

lemma map_of_take:
  "c \<in> set (map fst (take n m)) \<Longrightarrow> map_of m c = map_of (take n m) c"
proof (induction m arbitrary: n)
  case Nil
  then show ?case by simp
next
  case (Cons kv m)
  then show ?case by (cases n) auto
qed

lemma behind_prefix:
  assumes d: "distinct (map fst m)"
    and own: "\<forall>(k, st) \<in> set m. channel st = k"
    and kv: "kv \<in> set (drop n m)"
  shows "channel (snd kv) \<notin> set (take n (map fst m))"
proof -
  have "distinct (map fst (take n m) @ map fst (drop n m))"
    using d by (metis append_take_drop_id map_append)
  moreover from kv have "fst kv \<in> set (map fst (drop n m))"
    by simp
  ultimately have "fst kv \<notin> set (map fst (take n m))"
    by auto
  moreover from kv have "kv \<in> set m"
    by (rule in_set_dropD)
  with own have "channel (snd kv) = fst kv"
    by (cases kv) auto
  ultimately show ?thesis
    by (simp add: take_map)
qed

lemma getActive_split:
  assumes "reachable s"
  shows "getActive s =
           getActive_spec s
           @ filter active (map snd (drop (length valid_channels) (channels s)))"
proof -
  let ?m = "channels s" and ?n = "length valid_channels"
  from assms have ok: "store_ok ?m"
    by (simp add: reachable_def reachable_store_ok)
  then have d: "distinct (map fst ?m)"
    and pre: "take ?n (map fst ?m) = valid_channels"
    by (auto simp: store_ok_def)
  have keys: "map fst (take ?n ?m) = valid_channels"
    using pre by (simp add: take_map)
  have "distinct (take ?n (map fst ?m))"
    using d by (rule distinct_take)
  then have dt: "distinct (map fst (take ?n ?m))"
    by (simp only: take_map)
  have "filter active (map snd (take ?n ?m)) =
        concat (map (\<lambda>c. case map_of (take ?n ?m) c of None \<Rightarrow> []
                          | Some st \<Rightarrow> if active st then [st] else [])
                    (map fst (take ?n ?m)))"
    using values_in_key_order [OF dt, of active] by simp
  also have "\<dots> = concat (map (\<lambda>c. case map_of ?m c of None \<Rightarrow> []
                                     | Some st \<Rightarrow> if active st then [st] else [])
                               (map fst (take ?n ?m)))"
    by (intro arg_cong [where f = concat] map_cong refl) (simp add: map_of_take)
  finally have front: "filter active (map snd (take ?n ?m)) = getActive_spec s"
    by (simp only: keys getActive_spec_def)
  have "getActive s = filter active (map snd (take ?n ?m @ drop ?n ?m))"
    by (simp add: getActive_def map_values_def)
  also have "\<dots> = filter active (map snd (take ?n ?m))
                   @ filter active (map snd (drop ?n ?m))"
    by (simp only: map_append filter_append)
  finally show ?thesis
    by (simp only: front)
qed

lemma state_lines:
  "fst (getState e s) =
     Inr (if getActive s = [] then ''No active patterns.''
          else ''Active channels:''
               @ concat (map (\<lambda>(idx, c).
                               nl @ ''  '' @ channel c @ '': '' @ pattern c @ '' (''
                               @ string_of_int ((now_query e idx - timestamp c) div 1000)
                               @ ''s ago)'')
                             (enumerate 0 (getActive s))))"
proof (cases "getActive s = []")
  case True
  then show ?thesis by (simp add: getState_def Let_def)
next
  case False
  let ?f = "\<lambda>(idx, c). ''  '' @ channel c @ '': '' @ pattern c @ '' (''
                         @ string_of_int (elapsed (now_query e idx) (timestamp c)) @ ''s ago)''"
  let ?line = "\<lambda>(idx, c). nl @ ''  '' @ channel c @ '': '' @ pattern c @ '' (''
                            @ string_of_int ((now_query e idx - timestamp c) div 1000)
                            @ ''s ago)''"
  have "length (map ?f (enumerate 0 (getActive s))) = length (getActive s)"
    by simp
  with False have ne: "map ?f (enumerate 0 (getActive s)) \<noteq> []"
    by (metis length_0_conv)
  have each: "nl @ ?f x = ?line x" for x
    by (cases x) (simp add: elapsed_def)
  have "nl @ join nl (map ?f (enumerate 0 (getActive s))) =
        concat (map (\<lambda>x. nl @ x) (map ?f (enumerate 0 (getActive s))))"
    using ne by (rule join_lines)
  also have "\<dots> = concat (map (\<lambda>x. nl @ ?f x) (enumerate 0 (getActive s)))"
    by (simp only: map_map comp_def)
  also have "\<dots> = concat (map ?line (enumerate 0 (getActive s)))"
    by (simp only: each)
  finally have lines: "nl @ join nl (map ?f (enumerate 0 (getActive s))) =
        concat (map ?line (enumerate 0 (getActive s)))" .
  have "fst (getState e s) =
      Inr (''Active channels:'' @ (nl @ join nl (map ?f (enumerate 0 (getActive s)))))"
    using False by (simp add: getState_def Let_def)
  then have "fst (getState e s) =
      Inr (''Active channels:'' @ concat (map ?line (enumerate 0 (getActive s))))"
    by (simp only: lines)
  with False show ?thesis by simp
qed

text \<open>
  Against C7 as stated: the identifiers \<open>d11\<close> and \<open>d10\<close> are outside the set, evaluate accepts
  them, and the array lists them in the order of the calls. \<open>d11\<close> evaluated before \<open>d10\<close>
  gives \<open>d11, d10\<close>, which is no identifier order; the two calls in the other order leave the
  same records and give \<open>d10, d11\<close>.
\<close>

theorem getActive_call_order:
  "reachable stray_server \<and>
   map channel (getActive stray_server) = [''d11'', ''d10''] \<and>
   reachable stray_server_rev \<and>
   set (channels stray_server_rev) = set (channels stray_server) \<and>
   map channel (getActive stray_server_rev) = [''d10'', ''d11''] \<and>
   fst (getState quiet_env stray_server) =
     Inr (''Active channels:'' @ nl @ ''  d11: A (4s ago)'' @ nl @ ''  d10: B (4s ago)'')"
proof -
  have "reachable file_server"
    unfolding file_server_def by (rule reachable_init)
  then have r: "reachable stray_server" "reachable stray_server_rev"
    unfolding stray_server_def stray_server_rev_def by (rule reachable_eval_calls)+
  have v: "map channel (getActive stray_server) = [''d11'', ''d10'']"
    "set (channels stray_server_rev) = set (channels stray_server)"
    "map channel (getActive stray_server_rev) = [''d10'', ''d11'']"
    "fst (getState quiet_env stray_server) =
       Inr (''Active channels:'' @ nl @ ''  d11: A (4s ago)'' @ nl @ ''  d10: B (4s ago)'')"
    by code_simp+
  from r v show ?thesis by blast
qed

text \<open>
  C7, as the code has it. The array that \<open>getState\<close> filters out of the store, and prints line
  by line, holds the records whose active flag is true in the insertion order of the map.
  In every reachable state these are first the active records of \<open>d1\<close> to \<open>d9\<close>, in this
  order, and behind them the active records of the identifiers outside the set that have
  been evaluated, in the order the store holds them. In a state reached through evaluate
  calls on \<open>d1\<close> to \<open>d9\<close> only, the array is exactly the list the specification describes:
  the active channels in the order \<open>d1\<close> to \<open>d9\<close>, the same for every such state with the
  same records, however it was reached.
\<close>

theorem getActive_identifier_order:
  "(reachable s \<longrightarrow>
      getActive s =
        getActive_spec s
        @ filter active (map snd (drop (length valid_channels) (channels s))) \<and>
      (\<forall>kv \<in> set (drop (length valid_channels) (channels s)).
         channel (snd kv) \<notin> set valid_channels)) \<and>
   (reachable_via channel_in_set s \<longrightarrow>
      reachable s \<and>
      getActive s = getActive_spec s \<and>
      map channel (getActive s) = filter (is_active s) valid_channels \<and>
      (\<forall>s'. reachable_via channel_in_set s' \<and> map_of (channels s') = map_of (channels s) \<longrightarrow>
             getActive s' = getActive s)) \<and>
   fst (getState e s) =
     Inr (if getActive s = [] then ''No active patterns.''
          else ''Active channels:''
               @ concat (map (\<lambda>(idx, c).
                               nl @ ''  '' @ channel c @ '': '' @ pattern c @ '' (''
                               @ string_of_int ((now_query e idx - timestamp c) div 1000)
                               @ ''s ago)'')
                             (enumerate 0 (getActive s))))"
proof (intro conjI impI)
  assume g: "reachable s"
  then show "getActive s =
        getActive_spec s
        @ filter active (map snd (drop (length valid_channels) (channels s)))"
    by (rule getActive_split)
  from g have ok: "store_ok (channels s)"
    by (simp add: reachable_def reachable_store_ok)
  then have d: "distinct (map fst (channels s))"
    and pre: "take (length valid_channels) (map fst (channels s)) = valid_channels"
    and own: "\<forall>(k, st) \<in> set (channels s). channel st = k"
    by (auto simp: store_ok_def)
  show "\<forall>kv \<in> set (drop (length valid_channels) (channels s)).
         channel (snd kv) \<notin> set valid_channels"
  proof
    fix kv
    assume "kv \<in> set (drop (length valid_channels) (channels s))"
    with d own have "channel (snd kv) \<notin> set (take (length valid_channels) (map fst (channels s)))"
      by (rule behind_prefix)
    then show "channel (snd kv) \<notin> set valid_channels"
      unfolding pre .
  qed
next
  assume r: "reachable_via channel_in_set s"
  then show "reachable s"
    unfolding reachable_def by (rule reachable_via_mono) simp
  have spec: "getActive t = getActive_spec t" if "reachable_via channel_in_set t" for t
  proof -
    from that have keys: "map fst (channels t) = valid_channels"
      by (rule in_set_keys)
    from that have "store_ok (channels t)"
      by (rule reachable_store_ok)
    then have "distinct (map fst (channels t))"
      by (simp add: store_ok_def)
    from values_in_key_order [OF this, of active] keys show ?thesis
      by (simp add: getActive_def getActive_spec_def map_values_def)
  qed
  have own: "channel st = c" if "map_of (channels s) c = Some st" for c st
  proof -
    from r have "store_ok (channels s)"
      by (rule reachable_store_ok)
    moreover from that have "(c, st) \<in> set (channels s)"
      by (rule map_of_SomeD)
    ultimately show ?thesis
      by (auto simp: store_ok_def)
  qed
  show "getActive s = getActive_spec s"
    by (rule spec [OF r])
  show "map channel (getActive s) = filter (is_active s) valid_channels"
    unfolding spec [OF r] getActive_spec_def
    using channels_of_selected [of "channels s" valid_channels] own
    by (simp add: is_active_def [abs_def])
  show "\<forall>s'. reachable_via channel_in_set s' \<and> map_of (channels s') = map_of (channels s) \<longrightarrow>
             getActive s' = getActive s"
  proof (intro allI impI)
    fix s'
    assume "reachable_via channel_in_set s' \<and> map_of (channels s') = map_of (channels s)"
    then show "getActive s' = getActive s"
      using spec [OF r] spec [of s'] by (simp add: getActive_spec_def)
  qed
next
  show "fst (getState e s) =
     Inr (if getActive s = [] then ''No active patterns.''
          else ''Active channels:''
               @ concat (map (\<lambda>(idx, c).
                               nl @ ''  '' @ channel c @ '': '' @ pattern c @ '' (''
                               @ string_of_int ((now_query e idx - timestamp c) div 1000)
                               @ ''s ago)'')
                             (enumerate 0 (getActive s))))"
    by (rule state_lines)
qed

theorem getActive_identifier_order_witness:
  "(reachable_via channel_in_set ordered_server \<and>
    map channel (getActive ordered_server) = [''d1'', ''d2'']) \<and>
   (reachable stray_server \<and>
    (''d10'', \<lparr>channel = ''d10'', pattern = ''B'', timestamp = 5000, active = True\<rparr>)
      \<in> set (drop (length valid_channels) (channels stray_server)) \<and>
    ''d10'' \<notin> set valid_channels \<and>
    map channel (getActive stray_server) =
      map channel (getActive_spec stray_server) @ [''d11'', ''d10'']) \<and>
   fst (getState quiet_env ordered_server) =
     Inr (''Active channels:'' @ nl @ ''  d1: X (4s ago)'' @ nl @ ''  d2: Z (4s ago)'')"
proof -
  have a: "channel_in_set ''tidal_eval'' (eval_args ''d2'' ''Z'')"
    "channel_in_set ''tidal_eval'' (eval_args ''d1'' ''X'')"
    by code_simp+
  have "reachable_via channel_in_set file_server"
    unfolding file_server_def by (rule reachable_via.constructed)
  then have r: "reachable_via channel_in_set ordered_server"
    unfolding ordered_server_def by (rule reachable_via_eval_calls) (simp add: a)
  have f: "filter (is_active ordered_server) valid_channels = [''d1'', ''d2'']"
    by code_simp
  from getActive_identifier_order [of ordered_server] r
  have "map channel (getActive ordered_server) = filter (is_active ordered_server) valid_channels"
    by blast
  from this f have 1: "map channel (getActive ordered_server) = [''d1'', ''d2'']"
    by (rule trans)
  have "reachable file_server"
    unfolding file_server_def by (rule reachable_init)
  then have g: "reachable stray_server"
    unfolding stray_server_def by (rule reachable_eval_calls)
  have m: "(''d10'', \<lparr>channel = ''d10'', pattern = ''B'', timestamp = 5000, active = True\<rparr>)
      \<in> set (drop (length valid_channels) (channels stray_server))"
    by code_simp
  have x: "map channel (filter active
      (map snd (drop (length valid_channels) (channels stray_server)))) = [''d11'', ''d10'']"
    by code_simp
  note t = getActive_identifier_order [of stray_server]
  from t g have "\<forall>kv \<in> set (drop (length valid_channels) (channels stray_server)).
         channel (snd kv) \<notin> set valid_channels"
    by blast
  from this m
  have "channel (snd (''d10'',
          \<lparr>channel = ''d10'', pattern = ''B'', timestamp = 5000, active = True\<rparr>))
        \<notin> set valid_channels"
    by (rule bspec)
  then have 2: "''d10'' \<notin> set valid_channels"
    by simp
  from t g have "getActive stray_server =
        getActive_spec stray_server
        @ filter active (map snd (drop (length valid_channels) (channels stray_server)))"
    by blast
  then have "map channel (getActive stray_server) =
        map channel (getActive_spec stray_server)
        @ map channel (filter active
            (map snd (drop (length valid_channels) (channels stray_server))))"
    by simp
  then have 3: "map channel (getActive stray_server) =
      map channel (getActive_spec stray_server) @ [''d11'', ''d10'']"
    unfolding x .
  have o: "''Active channels:''
        @ concat (map (\<lambda>(idx, c).
                        nl @ ''  '' @ channel c @ '': '' @ pattern c @ '' (''
                        @ string_of_int ((now_query quiet_env idx - timestamp c) div 1000)
                        @ ''s ago)'')
                      (enumerate 0 (getActive ordered_server))) =
      ''Active channels:'' @ nl @ ''  d1: X (4s ago)'' @ nl @ ''  d2: Z (4s ago)''"
    "getActive ordered_server \<noteq> []"
    by code_simp+
  from getActive_identifier_order [of ordered_server quiet_env]
  have "fst (getState quiet_env ordered_server) =
     Inr (if getActive ordered_server = [] then ''No active patterns.''
          else ''Active channels:''
               @ concat (map (\<lambda>(idx, c).
                               nl @ ''  '' @ channel c @ '': '' @ pattern c @ '' (''
                               @ string_of_int ((now_query quiet_env idx - timestamp c) div 1000)
                               @ ''s ago)'')
                             (enumerate 0 (getActive ordered_server))))"
    by blast
  then have 4: "fst (getState quiet_env ordered_server) =
     Inr (''Active channels:'' @ nl @ ''  d1: X (4s ago)'' @ nl @ ''  d2: Z (4s ago)'')"
    using o by simp
  from r 1 g m 2 3 4 show ?thesis by blast
qed

section \<open>Evaluate on an identifier outside the set\<close>

text \<open>
  Against C1 as stated: \<open>d10\<close> is not one of the nine identifiers, and an evaluate call on it
  succeeds, adds a record for \<open>d10\<close> to the store, appends to the history and writes the file.
\<close>

theorem evalPattern_unknown_channel_accepted:
  "''d10'' \<notin> set valid_channels \<and>
   fst (callTool quiet_env file_server ''tidal_eval'' (Some (eval_args ''d10'' ''X''))) =
     check_mark @ '' Evaluated on d10:'' @ nl @ ''d10 $ X'' @ nl @ nl @ ''Pattern is now playing.'' \<and>
   map_of (channels file_server) ''d10'' = None \<and>
   map_of (channels (snd (callTool quiet_env file_server ''tidal_eval''
                            (Some (eval_args ''d10'' ''X''))))) ''d10'' =
     Some \<lparr>channel = ''d10'', pattern = ''X'', timestamp = 5000, active = True\<rparr> \<and>
   patternHistory file_server = [] \<and>
   patternHistory (snd (callTool quiet_env file_server ''tidal_eval''
                          (Some (eval_args ''d10'' ''X'')))) =
     [\<lparr>h_channel = ''d10'', h_pattern = ''X'', h_timestamp = 5000\<rparr>] \<and>
   files file_server ''out.tidal'' = None \<and>
   files (snd (callTool quiet_env file_server ''tidal_eval'' (Some (eval_args ''d10'' ''X''))))
         ''out.tidal'' =
     Some (''-- TidalCycles MCP Server'' @ nl
           @ ''-- Auto-generated at 2024-01-01T00:00:00.001Z'' @ nl @ nl @ ''d10 $ X'' @ nl)"
  by code_simp

text \<open>
  C1, as the code has it. The handler rejects a call before any effect only when the call has
  no arguments object. An evaluate call on an identifier outside \<open>d1\<close> to \<open>d9\<close> runs as on
  any other. It stores an active record under that identifier and appends the history entry;
  it then submits the command \<open>id $ content\<close> to the sink, whichever sink is configured,
  and the state and the answer of the call are those of that submission: the confirmation
  when the sink accepts the command, \<open>Error: \<close> and the sink's message when the sink throws.
  With the file sink and a successful write the file holds the command; with the process
  sink a successful call has written the command last to the subprocess, and on a healthy
  subprocess whose write succeeds the call succeeds.
\<close>

theorem evalPattern_no_validation:
  "callTool e s name None = (''Error: Missing arguments'', s) \<and>
   (arg_channel a \<notin> set valid_channels \<longrightarrow>
      snd (callTool e s ''tidal_eval'' (Some a)) =
        snd (submit e
               ((logPatternEvaluation e s (''Evaluate pattern on '' @ arg_channel a)
                   (arg_channel a) (arg_pattern a))
                  \<lparr>channels := map_set (channels s) (arg_channel a)
                      \<lparr>channel = arg_channel a, pattern = arg_pattern a,
                       timestamp = now_state e, active = True\<rparr>,
                   patternHistory := patternHistory s @ [entry_of (e, a)]\<rparr>)
               (arg_channel a @ '' $ '' @ arg_pattern a)) \<and>
      fst (callTool e s ''tidal_eval'' (Some a)) =
        (case fst (submit e
               ((logPatternEvaluation e s (''Evaluate pattern on '' @ arg_channel a)
                   (arg_channel a) (arg_pattern a))
                  \<lparr>channels := map_set (channels s) (arg_channel a)
                      \<lparr>channel = arg_channel a, pattern = arg_pattern a,
                       timestamp = now_state e, active = True\<rparr>,
                   patternHistory := patternHistory s @ [entry_of (e, a)]\<rparr>)
               (arg_channel a @ '' $ '' @ arg_pattern a)) of
           Inl msg \<Rightarrow> ''Error: '' @ msg
         | Inr u \<Rightarrow>
             check_mark @ '' Evaluated on '' @ arg_channel a @ '':'' @ nl
             @ (arg_channel a @ '' $ '' @ arg_pattern a) @ nl @ nl @ ''Pattern is now playing.'') \<and>
      channels (snd (callTool e s ''tidal_eval'' (Some a))) =
        map_set (channels s) (arg_channel a)
          \<lparr>channel = arg_channel a, pattern = arg_pattern a,
           timestamp = now_state e, active = True\<rparr> \<and>
      patternHistory (snd (callTool e s ''tidal_eval'' (Some a))) =
        patternHistory s @ [entry_of (e, a)] \<and>
      (\<not> useGhci (config s) \<and> file_write_error e = None \<longrightarrow>
         fst (callTool e s ''tidal_eval'' (Some a)) =
           check_mark @ '' Evaluated on '' @ arg_channel a @ '':'' @ nl
           @ (arg_channel a @ '' $ '' @ arg_pattern a) @ nl @ nl @ ''Pattern is now playing.'' \<and>
         files (snd (callTool e s ''tidal_eval'' (Some a))) (tidalFile (config s)) =
           Some (file_content e (arg_channel a @ '' $ '' @ arg_pattern a))) \<and>
      (useGhci (config s) \<and>
       fst (callTool e s ''tidal_eval'' (Some a)) =
           check_mark @ '' Evaluated on '' @ arg_channel a @ '':'' @ nl
           @ (arg_channel a @ '' $ '' @ arg_pattern a) @ nl @ nl @ ''Pattern is now playing.'' \<longrightarrow>
         (\<exists>p. ghciProcess (snd (callTool e s ''tidal_eval'' (Some a))) = Some p \<and>
              stdin_written p \<noteq> [] \<and>
              last (stdin_written p) = (arg_channel a @ '' $ '' @ arg_pattern a) @ nl)) \<and>
      (useGhci (config s) \<and> isGhciHealthy s \<and> stdin_write_error e = None \<longrightarrow>
         fst (callTool e s ''tidal_eval'' (Some a)) =
           check_mark @ '' Evaluated on '' @ arg_channel a @ '':'' @ nl
           @ (arg_channel a @ '' $ '' @ arg_pattern a) @ nl @ nl @ ''Pattern is now playing.''))"
proof -
  let ?c = "arg_channel a" and ?p = "arg_pattern a"
  let ?full = "?c @ '' $ '' @ ?p"
  let ?ok = "check_mark @ '' Evaluated on '' @ ?c @ '':'' @ nl @ ?full @ nl @ nl
             @ ''Pattern is now playing.''"
  let ?s3 = "(logPatternEvaluation e s (''Evaluate pattern on '' @ ?c) ?c ?p)
               \<lparr>channels := map_set (channels s) ?c
                   \<lparr>channel = ?c, pattern = ?p, timestamp = now_state e, active = True\<rparr>,
                patternHistory := patternHistory s @ [entry_of (e, a)]\<rparr>"
  let ?call = "callTool e s ''tidal_eval'' (Some a)"
  have none: "callTool e s name None = (''Error: Missing arguments'', s)"
    by (simp add: callTool_def dispatch_def)
  have d: "dispatch e s ''tidal_eval'' (Some a) = evalPattern e s ?c ?p"
    by (simp add: dispatch_def)
  have st: "snd ?call = snd (submit e ?s3 ?full)"
    unfolding callTool_snd d by (simp add: evalPattern_def Let_def entry_of_def)
  have ans: "fst ?call =
      (case fst (submit e ?s3 ?full) of Inl msg \<Rightarrow> ''Error: '' @ msg | Inr u \<Rightarrow> ?ok)"
  proof (cases "submit e ?s3 ?full")
    case (Pair r s4)
    then show ?thesis
      by (cases r)
         (simp_all add: callTool_def dispatch_def evalPattern_def Let_def entry_of_def)
  qed
  have ch: "channels (snd ?call) =
      map_set (channels s) ?c \<lparr>channel = ?c, pattern = ?p, timestamp = now_state e, active = True\<rparr>"
    unfolding st by simp
  have hi: "patternHistory (snd ?call) = patternHistory s @ [entry_of (e, a)]"
    unfolding st by simp
  have fl: "fst ?call = ?ok \<and>
      files (snd ?call) (tidalFile (config s)) = Some (file_content e ?full)"
    if "\<not> useGhci (config s) \<and> file_write_error e = None"
    unfolding ans st using that by (simp add: submit_def writeToTidalFile_def)
  have sent: "\<exists>p. ghciProcess (snd ?call) = Some p \<and> stdin_written p \<noteq> [] \<and>
      last (stdin_written p) = ?full @ nl"
    if g: "useGhci (config s) \<and> fst ?call = ?ok"
  proof -
    from g have "fst (submit e ?s3 ?full) = Inr ()"
      unfolding ans by (cases "fst (submit e ?s3 ?full)") simp_all
    with g have "fst (sendToGhci e ?s3 ?full) = Inr ()"
      by (simp add: submit_def)
    from sendToGhci_sent [OF this] g show ?thesis
      unfolding st by (simp add: submit_def)
  qed
  have healthy: "fst ?call = ?ok"
    if g: "useGhci (config s) \<and> isGhciHealthy s \<and> stdin_write_error e = None"
  proof -
    have "isGhciHealthy ?s3 = isGhciHealthy s"
      by (simp add: isGhciHealthy_def logPatternEvaluation_def Let_def)
    with g have hs: "isGhciHealthy ?s3"
      by simp
    then have "sendToGhci e ?s3 ?full = sendToGhci_write e ?s3 ?full"
      by (simp add: sendToGhci_def sendToGhci_enter_def)
    moreover have "fst (sendToGhci_write e ?s3 ?full) = Inr ()"
      using g hs
      by (auto simp: sendToGhci_write_def isGhciHealthy_def Let_def split: option.splits)
    moreover have "useGhci (config ?s3)"
      using g by simp
    ultimately have "fst (submit e ?s3 ?full) = Inr ()"
      by (simp add: submit_def)
    then show ?thesis
      unfolding ans by simp
  qed
  show ?thesis
    by (intro conjI impI) (use none st ans ch hi fl sent healthy in blast)+
qed

theorem evalPattern_no_validation_witness:
  "arg_channel (eval_args ''d10'' ''X'') \<notin> set valid_channels \<and>
   (\<not> useGhci (config file_server) \<and> file_write_error quiet_env = None) \<and>
   patternHistory (snd (callTool quiet_env file_server ''tidal_eval''
                          (Some (eval_args ''d10'' ''X'')))) =
     patternHistory file_server @ [entry_of (quiet_env, eval_args ''d10'' ''X'')] \<and>
   files (snd (callTool quiet_env file_server ''tidal_eval'' (Some (eval_args ''d10'' ''X''))))
         (tidalFile (config file_server)) =
     Some (file_content quiet_env
             (arg_channel (eval_args ''d10'' ''X'') @ '' $ '' @ arg_pattern (eval_args ''d10'' ''X''))) \<and>
   (useGhci (config ghci_server) \<and>
    fst (callTool quiet_env ghci_server ''tidal_eval'' (Some (eval_args ''d10'' ''X''))) =
      check_mark @ '' Evaluated on '' @ arg_channel (eval_args ''d10'' ''X'') @ '':'' @ nl
      @ (arg_channel (eval_args ''d10'' ''X'') @ '' $ '' @ arg_pattern (eval_args ''d10'' ''X''))
      @ nl @ nl @ ''Pattern is now playing.'') \<and>
   (\<exists>p. ghciProcess (snd (callTool quiet_env ghci_server ''tidal_eval''
                             (Some (eval_args ''d10'' ''X'')))) = Some p \<and>
        stdin_written p \<noteq> [] \<and>
        last (stdin_written p) =
          (arg_channel (eval_args ''d10'' ''X'') @ '' $ '' @ arg_pattern (eval_args ''d10'' ''X''))
          @ nl) \<and>
   (useGhci (config ghci_waiting) \<and> isGhciHealthy ghci_waiting \<and>
    stdin_write_error quiet_env = None) \<and>
   fst (callTool quiet_env ghci_waiting ''tidal_eval'' (Some (eval_args ''d10'' ''X''))) =
      check_mark @ '' Evaluated on '' @ arg_channel (eval_args ''d10'' ''X'') @ '':'' @ nl
      @ (arg_channel (eval_args ''d10'' ''X'') @ '' $ '' @ arg_pattern (eval_args ''d10'' ''X''))
      @ nl @ nl @ ''Pattern is now playing.''"
proof -
  have o: "arg_channel (eval_args ''d10'' ''X'') \<notin> set valid_channels"
    by code_simp
  have f: "\<not> useGhci (config file_server) \<and> file_write_error quiet_env = None"
    by code_simp
  have g: "useGhci (config ghci_server) \<and>
    fst (callTool quiet_env ghci_server ''tidal_eval'' (Some (eval_args ''d10'' ''X''))) =
      check_mark @ '' Evaluated on '' @ arg_channel (eval_args ''d10'' ''X'') @ '':'' @ nl
      @ (arg_channel (eval_args ''d10'' ''X'') @ '' $ '' @ arg_pattern (eval_args ''d10'' ''X''))
      @ nl @ nl @ ''Pattern is now playing.''"
    by code_simp
  have w: "useGhci (config ghci_waiting) \<and> isGhciHealthy ghci_waiting \<and>
    stdin_write_error quiet_env = None"
    by code_simp
  note t = evalPattern_no_validation [of quiet_env file_server "''tidal_eval''" "eval_args ''d10'' ''X''"]
  note u = evalPattern_no_validation [of quiet_env ghci_server "''tidal_eval''" "eval_args ''d10'' ''X''"]
  note x = evalPattern_no_validation [of quiet_env ghci_waiting "''tidal_eval''" "eval_args ''d10'' ''X''"]
  from t o have 1: "patternHistory (snd (callTool quiet_env file_server ''tidal_eval''
                          (Some (eval_args ''d10'' ''X'')))) =
     patternHistory file_server @ [entry_of (quiet_env, eval_args ''d10'' ''X'')]"
    by blast
  from t o f have 2: "files (snd (callTool quiet_env file_server ''tidal_eval''
                          (Some (eval_args ''d10'' ''X''))))
         (tidalFile (config file_server)) =
     Some (file_content quiet_env
             (arg_channel (eval_args ''d10'' ''X'') @ '' $ '' @ arg_pattern (eval_args ''d10'' ''X'')))"
    by blast
  from u o g have 3: "\<exists>p. ghciProcess (snd (callTool quiet_env ghci_server ''tidal_eval''
                             (Some (eval_args ''d10'' ''X'')))) = Some p \<and>
        stdin_written p \<noteq> [] \<and>
        last (stdin_written p) =
          (arg_channel (eval_args ''d10'' ''X'') @ '' $ '' @ arg_pattern (eval_args ''d10'' ''X''))
          @ nl"
    by blast
  from x o w have 4: "fst (callTool quiet_env ghci_waiting ''tidal_eval''
                             (Some (eval_args ''d10'' ''X''))) =
      check_mark @ '' Evaluated on '' @ arg_channel (eval_args ''d10'' ''X'') @ '':'' @ nl
      @ (arg_channel (eval_args ''d10'' ''X'') @ '' $ '' @ arg_pattern (eval_args ''d10'' ''X''))
      @ nl @ nl @ ''Pattern is now playing.''"
    by blast
  from o f 1 2 g 3 w 4 show ?thesis by blast
qed

section \<open>A call that finds the reconnect guard held\<close>

text \<open>
  Against C4 as stated: while a first \<open>sendToGhci\<close> holds the guard and waits for the
  subprocess it has just spawned, the health check already passes, and a second call is not
  turned away: it writes its command to the new subprocess and succeeds.
\<close>

theorem submit_during_reconnect_succeeds:
  "fst (sendToGhci_enter quiet_env ghci_server) = Awaiting True \<and>
   isReconnecting ghci_waiting \<and>
   isGhciHealthy ghci_waiting \<and>
   fst (sendToGhci quiet_env ghci_waiting ''hush'') = Inr () \<and>
   map_option stdin_written (ghciProcess (snd (sendToGhci quiet_env ghci_waiting ''hush''))) =
     Some [''hush'' @ nl]"
  by code_simp

text \<open>
  C4, as the code has it. A call of \<open>sendToGhci\<close> that finds the guard held never waits and
  never spawns. When the health check fails it throws the \<open>currently reconnecting\<close> error and
  leaves the state as it is; when the health check passes it goes straight to the write.
\<close>

theorem sendToGhci_guard_held:
  "isReconnecting s \<Longrightarrow>
     (\<not> isGhciHealthy s \<longrightarrow>
        sendToGhci e s code =
          (Inl ''GHCi is currently reconnecting, please try again in a moment'', s)) \<and>
     (isGhciHealthy s \<longrightarrow> sendToGhci e s code = sendToGhci_write e s code) \<and>
     fst (sendToGhci_enter e s) \<noteq> Awaiting True \<and>
     fst (sendToGhci_enter e s) \<noteq> Awaiting False \<and>
     spawn_count (snd (sendToGhci e s code)) = spawn_count s"
  by (simp add: sendToGhci_def sendToGhci_enter_def)

theorem sendToGhci_guard_held_witness:
  "(isReconnecting (ghci_handler ProcessExit ghci_waiting) \<and>
    \<not> isGhciHealthy (ghci_handler ProcessExit ghci_waiting)) \<and>
   fst (sendToGhci quiet_env (ghci_handler ProcessExit ghci_waiting) ''hush'') =
     Inl ''GHCi is currently reconnecting, please try again in a moment'' \<and>
   spawn_count (snd (sendToGhci quiet_env (ghci_handler ProcessExit ghci_waiting) ''hush'')) =
     spawn_count (ghci_handler ProcessExit ghci_waiting) \<and>
   (isReconnecting ghci_waiting \<and> isGhciHealthy ghci_waiting) \<and>
   sendToGhci quiet_env ghci_waiting ''hush'' = sendToGhci_write quiet_env ghci_waiting ''hush''"
proof -
  let ?s = "ghci_handler ProcessExit ghci_waiting"
  have g: "isReconnecting ?s"
    by code_simp
  have h: "\<not> isGhciHealthy ?s"
    by code_simp
  note t = sendToGhci_guard_held [OF g, of quiet_env "''hush''"]
  from t h have "sendToGhci quiet_env ?s ''hush'' =
      (Inl ''GHCi is currently reconnecting, please try again in a moment'', ?s)"
    by blast
  then have 1: "fst (sendToGhci quiet_env ?s ''hush'') =
      Inl ''GHCi is currently reconnecting, please try again in a moment''"
    by simp
  from t have 2: "spawn_count (snd (sendToGhci quiet_env ?s ''hush'')) = spawn_count ?s"
    by blast
  have g': "isReconnecting ghci_waiting"
    by code_simp
  have h': "isGhciHealthy ghci_waiting"
    by code_simp
  from sendToGhci_guard_held [OF g', of quiet_env "''hush''"] h'
  have 3: "sendToGhci quiet_env ghci_waiting ''hush'' = sendToGhci_write quiet_env ghci_waiting ''hush''"
    by blast
  from g h 1 2 g' h' 3 show ?thesis by blast
qed

end
